theory Spec2Isabelle
  imports Main "HOL-Library.Sublist" "HOL-Library.Multiset"
begin

section \<open>Text\<close>

text \<open>
  A Python \<^verbatim>\<open>str\<close> is a sequence of code points; here it is a \<open>string\<close>, one \<open>char\<close> per
  code point, which covers the code points below 256. The character classes are those of
  Python's \<^verbatim>\<open>re\<close> module on \<^verbatim>\<open>str\<close> patterns, restricted to that range: \<^verbatim>\<open>[A-Za-z]\<close>,
  and \<^verbatim>\<open>\s\<close> (the characters for which \<^verbatim>\<open>str.isspace\<close> holds: 9 to 13, 28 to 32, 133 and
  160).
\<close>

definition is_letter :: "char \<Rightarrow> bool" where
  "is_letter c = (let n = (of_char c :: nat) in (65 \<le> n \<and> n \<le> 90) \<or> (97 \<le> n \<and> n \<le> 122))"

definition is_space :: "char \<Rightarrow> bool" where
  "is_space c = (let n = (of_char c :: nat) in
     (9 \<le> n \<and> n \<le> 13) \<or> (28 \<le> n \<and> n \<le> 32) \<or> n = 133 \<or> n = 160)"

text \<open>
  \<^verbatim>\<open>\w\<close> on a \<^verbatim>\<open>str\<close> pattern is the underscore and every character for which
  \<^verbatim>\<open>str.isalnum\<close> holds; \<^verbatim>\<open>str.lower\<close> moves the upper-case letters of the range to their
  lower-case ones.
\<close>

definition is_word :: "char \<Rightarrow> bool" where
  "is_word c = (let n = (of_char c :: nat) in
     (48 \<le> n \<and> n \<le> 57) \<or> (65 \<le> n \<and> n \<le> 90) \<or> n = 95 \<or> (97 \<le> n \<and> n \<le> 122)
     \<or> n = 170 \<or> n = 178 \<or> n = 179 \<or> n = 181 \<or> n = 185 \<or> n = 186 \<or> (188 \<le> n \<and> n \<le> 190)
     \<or> (192 \<le> n \<and> n \<le> 214) \<or> (216 \<le> n \<and> n \<le> 246) \<or> (248 \<le> n \<and> n \<le> 255))"

definition lower_char :: "char \<Rightarrow> char" where
  "lower_char c = (let n = (of_char c :: nat) in
     if (65 \<le> n \<and> n \<le> 90) \<or> (192 \<le> n \<and> n \<le> 214) \<or> (216 \<le> n \<and> n \<le> 222)
     then char_of (n + 32) else c)"

definition py_lower :: "string \<Rightarrow> string" where
  "py_lower s = map lower_char s"

definition dquote :: char where
  "dquote = CHR 0x22"

definition backslash :: char where
  "backslash = CHR 0x5C"

definition newline :: char where
  "newline = CHR 0x0A"

text \<open>\<^verbatim>\<open>s.startswith(p)\<close>, \<^verbatim>\<open>sub in s\<close>, \<^verbatim>\<open>s.strip()\<close> and \<^verbatim>\<open>s.rstrip(chars)\<close>.\<close>

definition starts_with :: "string \<Rightarrow> string \<Rightarrow> bool" where
  "starts_with p s = (take (length p) s = p)"

fun contains :: "string \<Rightarrow> string \<Rightarrow> bool" where
  "contains sub [] = (sub = [])"
| "contains sub (c # cs) = (starts_with sub (c # cs) \<or> contains sub cs)"

definition py_strip :: "string \<Rightarrow> string" where
  "py_strip s = rev (dropWhile is_space (rev (dropWhile is_space s)))"

definition py_rstrip :: "string \<Rightarrow> string \<Rightarrow> string" where
  "py_rstrip chars s = rev (dropWhile (\<lambda>c. c \<in> set chars) (rev s))"

text \<open>
  \<^verbatim>\<open>s.split(sep)[-1]\<close> for a non-empty separator: \<^verbatim>\<open>split\<close> cuts at the occurrences of
  the separator found from left to right, each search starting behind the previous
  occurrence; the last piece is what follows the last cut. \<open>cur\<close> is the piece being read.
\<close>

fun split_last :: "string \<Rightarrow> string \<Rightarrow> string \<Rightarrow> string" where
  "split_last sep cur [] = cur"
| "split_last sep cur (c # cs) =
     (if starts_with sep (c # cs) then split_last sep [] (drop (length sep - 1) cs)
      else split_last sep (cur @ [c]) cs)"

section \<open>Text normalizer\<close>

text \<open>
  \<^verbatim>\<open>
  def clean_protected_case(bibtex_str):
      bibtex_str = re.sub(r"(title\s*=\s*)\{\{([A-Za-z])\}(.*?)\}",
                          lambda m: f"{m.group(1)}{{{m.group(2)+m.group(3)}}}",
                          bibtex_str, flags=re.DOTALL)
      bibtex_str = re.sub(r"\{([A-Za-z])\}", r"\1", bibtex_str)
      return bibtex_str
  \<close>
  \<open>match_title s\<close> is the match of the first pattern at the very start of \<open>s\<close>, as the
  replacement text and the length of the matched text. Every quantifier of the pattern
  meets a character outside its class, so backtracking never finds a second way to match:
  both \<^verbatim>\<open>\s*\<close> take all the white space there is, and the lazy \<^verbatim>\<open>(.*?)\<close> under
  \<^verbatim>\<open>DOTALL\<close> runs to the first closing brace, which has to exist.
\<close>

definition match_title :: "string \<Rightarrow> (string \<times> nat) option" where
  "match_title s =
     (if take 5 s = ''title'' then
        let r1 = drop 5 s; ws1 = takeWhile is_space r1; r2 = dropWhile is_space r1 in
        (case r2 of
           e # r3 \<Rightarrow>
             let ws2 = takeWhile is_space r3; r4 = dropWhile is_space r3 in
             (case r4 of
                b1 # b2 # x # b3 # r5 \<Rightarrow>
                  if e = CHR ''='' \<and> b1 = CHR ''{'' \<and> b2 = CHR ''{'' \<and> is_letter x \<and> b3 = CHR ''}''
                     \<and> CHR ''}'' \<in> set r5
                  then let g1 = ''title'' @ ws1 @ ''='' @ ws2; g3 = takeWhile (\<lambda>c. c \<noteq> CHR ''}'') r5
                       in Some (g1 @ ''{'' @ [x] @ g3 @ ''}'', length g1 + 4 + length g3 + 1)
                  else None
              | _ \<Rightarrow> None)
         | [] \<Rightarrow> None)
      else None)"

text \<open>
  \<^verbatim>\<open>re.sub\<close> scans from left to right: where the pattern matches, the replacement is
  emitted and the scan goes on behind the match; elsewhere the character is copied. A match
  is never empty, so dropping \<open>len - 1\<close> characters behind the first one skips exactly the
  matched text.
\<close>

fun sub_title :: "string \<Rightarrow> string" where
  "sub_title [] = []"
| "sub_title (c # cs) =
     (case match_title (c # cs) of
        None \<Rightarrow> c # sub_title cs
      | Some (repl, len) \<Rightarrow> repl @ sub_title (drop (len - 1) cs))"

text \<open>The second substitution: its pattern has the fixed length three.\<close>

fun strip_single :: "string \<Rightarrow> string" where
  "strip_single (a # b # c # cs) =
     (if a = CHR ''{'' \<and> is_letter b \<and> c = CHR ''}'' then b # strip_single cs
      else a # strip_single (b # c # cs))"
| "strip_single cs = cs"

definition clean_protected_case :: "string \<Rightarrow> string" where
  "clean_protected_case bibtex_str = strip_single (sub_title bibtex_str)"

text \<open>\<open>has_single s\<close>: the text contains a single letter in braces, a match of the second pattern.\<close>

fun has_single :: "string \<Rightarrow> bool" where
  "has_single (a # b # c # cs) =
     ((a = CHR ''{'' \<and> is_letter b \<and> c = CHR ''}'') \<or> has_single (b # c # cs))"
| "has_single cs = False"

text \<open>
  \<open>has_double s\<close>: the text contains a single letter in two pairs of braces, the shape
  from which one application of the second pattern leaves a single letter in braces.
\<close>

fun has_double :: "string \<Rightarrow> bool" where
  "has_double (a # b # c # d # e # cs) =
     ((a = CHR ''{'' \<and> b = CHR ''{'' \<and> is_letter c \<and> d = CHR ''}'' \<and> e = CHR ''}'')
      \<or> has_double (b # c # d # e # cs))"
| "has_double cs = False"

section \<open>Span reassembler\<close>

text \<open>
  \<^verbatim>\<open>process_bib_file\<close> collects one dictionary with the keys \<^verbatim>\<open>start\<close>, \<^verbatim>\<open>end\<close> and
  \<^verbatim>\<open>text\<close> per match of the entry pattern and then rewrites the text from the bottom up:
  \<^verbatim>\<open>
  new_text = raw_text
  for r in sorted(replacements, key=lambda x: x['start'], reverse=True):
      new_text = new_text[:r['start']] + r['text'] + new_text[r['end']:]
  \<close>
  Offsets are non-negative, so the slices are \<open>take\<close> and \<open>drop\<close> (both stop at the end of
  the text, as Python's slices do). \<^verbatim>\<open>sorted(..., reverse=True)\<close> is stable: it orders by
  descending key and keeps records with equal keys in their original order, which is the
  stable ascending sort of the reversed list, reversed. The field names carry the prefix
  \<open>r_\<close> because \<open>end\<close> and \<open>text\<close> are keywords of the theory language.
\<close>

record replacement =
  r_start :: nat
  r_end :: nat
  r_text :: string

definition splice :: "string \<Rightarrow> replacement \<Rightarrow> string" where
  "splice new_text r = take (r_start r) new_text @ r_text r @ drop (r_end r) new_text"

definition sorted_desc :: "replacement list \<Rightarrow> replacement list" where
  "sorted_desc rs = rev (sort_key r_start (rev rs))"

definition apply_replacements :: "string \<Rightarrow> replacement list \<Rightarrow> string" where
  "apply_replacements raw_text rs = foldl splice raw_text (sorted_desc rs)"

text \<open>
  What the claim expects of the output, written from its words: walking through the
  spans from left to right, the text between the previous span's end and the next span's
  start is copied, each span is replaced by its text once, and the text after the last
  span is copied.
\<close>

fun reassembled :: "nat \<Rightarrow> string \<Rightarrow> replacement list \<Rightarrow> string" where
  "reassembled pos raw [] = drop pos raw"
| "reassembled pos raw (r # rs) =
     take (r_start r - pos) (drop pos raw) @ r_text r @ reassembled (r_end r) raw rs"

definition apart :: "replacement \<Rightarrow> replacement \<Rightarrow> bool" where
  "apart a b = (r_end a \<le> r_start b \<or> r_end b \<le> r_start a)"

definition spans_ok :: "string \<Rightarrow> replacement list \<Rightarrow> bool" where
  "spans_ok raw rs =
     ((\<forall>r \<in> set rs. r_start r < r_end r \<and> r_end r \<le> length raw) \<and> sorted_wrt apart rs)"

definition ascending :: "replacement list \<Rightarrow> bool" where
  "ascending rs = sorted_wrt (\<lambda>a b. r_end a \<le> r_start b) rs"

section \<open>Resilient fetcher\<close>

text \<open>
  The outside world. A request is the URL with the keyword arguments the callers pass
  (\<^verbatim>\<open>params\<close>, \<^verbatim>\<open>headers\<close>). A response carries its status code, its body (\<^verbatim>\<open>resp.text\<close>,
  here \<open>body\<close>, the word \<open>text\<close> being a keyword) and \<open>json_items\<close>, the value of
  \<^verbatim>\<open>resp.json().get('message', {}).get('items', [])\<close>, which is \<open>None\<close> when decoding raises.
  A candidate of the metadata search is a dictionary read at two keys only, \<^verbatim>\<open>'title'\<close> (a
  list of strings) and \<^verbatim>\<open>'DOI'\<close>; either key may be missing.
\<close>

record request =
  url :: string
  params :: "(string \<times> string) list"
  headers :: "(string \<times> string) list"

record item =
  title :: "string list option"
  DOI :: "string option"

record response =
  status_code :: nat
  body :: string
  json_items :: "item list option"

text \<open>
  \<^verbatim>\<open>requests.get\<close> returns a response or raises (a transport failure: no connection, a
  timeout). The program is sequential and deterministic, so any behaviour of the network,
  also one that depends on everything sent before, is a function of the number of calls of
  \<^verbatim>\<open>requests.get\<close> made so far (the \<open>clock\<close> of the world) and of the request.
\<close>

datatype reply = Reply response | Transport_failure

type_synonym network = "nat \<Rightarrow> request \<Rightarrow> reply"

datatype failure = No_DOI_candidates string | No_exact_match string | No_journal_DOI string

datatype exn =
    HTTPError response
  | RequestException
  | ValueError failure
  | JSONDecodeError
  | IndexError
  | KeyError string
  | AttributeError
  | UnboundLocalError

text \<open>
  What the program does to the world is kept in a log: the calls of \<^verbatim>\<open>requests.get\<close>, the
  sleeps, the lines printed (by their kind and arguments, not their wording), and two marks
  for the deduplication guard: \<open>Fetch d\<close> when \<^verbatim>\<open>fetch_bibtex_from_doi(d)\<close> is entered and
  \<open>Claim d\<close> when \<^verbatim>\<open>used_dois.add(d)\<close> runs. \<open>used_dois\<close> is the module-level set.
\<close>

datatype message =
    Rate_limited string nat
  | Primary_miss string
  | Skipping_duplicate string string
  | Metadata_failed string exn
  | Finished

datatype event = Get request | Sleep nat | Print message | Fetch string | Claim string

record world =
  clock :: nat
  log :: "event list"
  used_dois :: "string set"

definition emit :: "event list \<Rightarrow> world \<Rightarrow> world" where
  "emit es w = w\<lparr>log := log w @ es\<rparr>"

definition requests_get :: "network \<Rightarrow> request \<Rightarrow> world \<Rightarrow> reply \<times> world" where
  "requests_get net rq w = (net (clock w) rq, emit [Get rq] (w\<lparr>clock := clock w + 1\<rparr>))"

definition MAX_RETRIES :: nat where
  "MAX_RETRIES = 3"

definition BACKOFF_FACTOR :: nat where
  "BACKOFF_FACTOR = 1"

text \<open>
  \<^verbatim>\<open>Response.raise_for_status\<close> of the requests library raises \<^verbatim>\<open>HTTPError\<close> for the
  status codes from 400 to 599 and returns \<^verbatim>\<open>None\<close> for every other one.
\<close>

definition is_error_status :: "nat \<Rightarrow> bool" where
  "is_error_status c = (400 \<le> c \<and> c < 600)"

text \<open>
  \<^verbatim>\<open>
  def http_get(url, **kwargs):
      for attempt in range(1, MAX_RETRIES + 1):
          resp = requests.get(url, **kwargs)
          if resp.status_code == 429:
              wait = BACKOFF_FACTOR * (2 ** (attempt - 1))
              print(f"WARNING: 429 from {url}, retrying in {wait}s...")
              time.sleep(wait)
              continue
          resp.raise_for_status()
          return resp
      resp.raise_for_status()
  \<close>
  The loop runs over the attempts that are left; \<open>prev\<close> is the variable \<^verbatim>\<open>resp\<close>, unbound
  before the first attempt. Falling off the end of the function returns \<^verbatim>\<open>None\<close>, which is
  the result \<open>Inr None\<close>.
\<close>

fun http_get_loop ::
  "network \<Rightarrow> request \<Rightarrow> nat list \<Rightarrow> response option \<Rightarrow> world \<Rightarrow> (exn + response option) \<times> world"
where
  "http_get_loop net rq [] prev w =
     (case prev of
        None \<Rightarrow> (Inl UnboundLocalError, w)
      | Some resp \<Rightarrow>
          if is_error_status (status_code resp) then (Inl (HTTPError resp), w) else (Inr None, w))"
| "http_get_loop net rq (attempt # attempts) prev w =
     (case requests_get net rq w of
        (Transport_failure, w1) \<Rightarrow> (Inl RequestException, w1)
      | (Reply resp, w1) \<Rightarrow>
          if status_code resp = 429 then
            let wait = BACKOFF_FACTOR * 2 ^ (attempt - 1) in
            http_get_loop net rq attempts (Some resp)
              (emit [Print (Rate_limited (url rq) wait), Sleep wait] w1)
          else if is_error_status (status_code resp) then (Inl (HTTPError resp), w1)
          else (Inr (Some resp), w1))"

definition http_get :: "network \<Rightarrow> request \<Rightarrow> world \<Rightarrow> (exn + response option) \<times> world" where
  "http_get net rq w = http_get_loop net rq [1 ..< MAX_RETRIES + 1] None w"

text \<open>
  Vocabulary for the retry policy: a reply that is a response with status 429; what one
  attempt makes of any other reply; and what an attempt that meets a 429 leaves in the log.
\<close>

definition is_429 :: "reply \<Rightarrow> bool" where
  "is_429 rp = (case rp of Reply resp \<Rightarrow> status_code resp = 429 | Transport_failure \<Rightarrow> False)"

definition outcome :: "reply \<Rightarrow> exn + response option" where
  "outcome rp =
     (case rp of
        Transport_failure \<Rightarrow> Inl RequestException
      | Reply resp \<Rightarrow>
          if is_error_status (status_code resp) then Inl (HTTPError resp) else Inr (Some resp))"

definition retry_events :: "request \<Rightarrow> nat \<Rightarrow> event list" where
  "retry_events rq attempt =
     [Get rq,
      Print (Rate_limited (url rq) (BACKOFF_FACTOR * 2 ^ (attempt - 1))),
      Sleep (BACKOFF_FACTOR * 2 ^ (attempt - 1))]"

section \<open>Identifier resolvers\<close>

definition DOI2BIB_URL :: string where
  "DOI2BIB_URL = ''https://doi2bib.org/bib/''"

definition CROSSREF_API_WORKS :: string where
  "CROSSREF_API_WORKS = ''https://api.crossref.org/works''"

definition ARXIV_ABS_URL :: string where
  "ARXIV_ABS_URL = ''https://arxiv.org/abs/''"

text \<open>
  \<^verbatim>\<open>
  def fetch_bibtex_from_doi(doi):
      url = DOI2BIB_URL + doi
      try:
          text = http_get(url).text
      except requests.HTTPError as e:
          if e.response.status_code == 404:
              print(f" doi2bib.org miss for {doi}, using CrossRef fallback")
              url2 = f"{CROSSREF_API_WORKS}/{doi}/transform/application/x-bibtex"
              text = http_get(url2, headers={'Accept': 'application/x-bibtex'}).text
          else:
              raise
      return clean_protected_case(text)
  \<close>
  Reading \<^verbatim>\<open>.text\<close> of \<^verbatim>\<open>None\<close> would raise \<^verbatim>\<open>AttributeError\<close>. The mark \<open>Fetch doi\<close> is
  logged on entry.
\<close>

definition text_of :: "(exn + response option) \<times> world \<Rightarrow> (exn + string) \<times> world" where
  "text_of r =
     (case r of
        (Inl e, w) \<Rightarrow> (Inl e, w)
      | (Inr None, w) \<Rightarrow> (Inl AttributeError, w)
      | (Inr (Some resp), w) \<Rightarrow> (Inr (body resp), w))"

definition fetch_bibtex_from_doi :: "network \<Rightarrow> string \<Rightarrow> world \<Rightarrow> (exn + string) \<times> world" where
  "fetch_bibtex_from_doi net doi w =
     (case text_of (http_get net \<lparr>url = DOI2BIB_URL @ doi, params = [], headers = []\<rparr>
                      (emit [Fetch doi] w)) of
        (Inr txt, w1) \<Rightarrow> (Inr (clean_protected_case txt), w1)
      | (Inl (HTTPError resp), w1) \<Rightarrow>
          if status_code resp = 404 then
            (case text_of (http_get net
                     \<lparr>url = CROSSREF_API_WORKS @ ''/'' @ doi @ ''/transform/application/x-bibtex'',
                      params = [], headers = [(''Accept'', ''application/x-bibtex'')]\<rparr>
                     (emit [Print (Primary_miss doi)] w1)) of
               (Inr txt, w2) \<Rightarrow> (Inr (clean_protected_case txt), w2)
             | (Inl e2, w2) \<Rightarrow> (Inl e2, w2))
          else (Inl (HTTPError resp), w1)
      | (Inl e, w1) \<Rightarrow> (Inl e, w1))"

text \<open>
  \<^verbatim>\<open>
  def search_doi_by_metadata(title, author):
      title_clean = re.sub(r"[\\\{\}]", "", title).strip()
      params = {'query.title': title_clean, 'query.author': author or "", 'rows': 5}
      resp = http_get(CROSSREF_API_WORKS, params=params, headers={'Accept': 'application/json'})
      items = resp.json().get('message', {}).get('items', [])
      if not items:
          raise ValueError(f"No DOI candidates for ...")
      def normalize(s):
          return re.sub(r"\W+", "", s).lower()
      target_norm = normalize(title_clean)
      for item in items:
          cand = item.get('title', [""])[0]
          if normalize(cand) == target_norm:
              return item['DOI']
      raise ValueError(f"No exact-match DOI for ...")
  \<close>
  \<^verbatim>\<open>[0]\<close> on an empty title list raises \<^verbatim>\<open>IndexError\<close>, and \<^verbatim>\<open>item['DOI']\<close> raises
  \<^verbatim>\<open>KeyError\<close> when the key is missing. The loop is \<open>first_exact\<close>; \<open>select_doi\<close> is the
  part of the function behind the request.
\<close>

definition normalize :: "string \<Rightarrow> string" where
  "normalize s = py_lower (filter is_word s)"

definition clean_title :: "string \<Rightarrow> string" where
  "clean_title t = py_strip (filter (\<lambda>c. c \<noteq> backslash \<and> c \<noteq> CHR ''{'' \<and> c \<noteq> CHR ''}'') t)"

definition cand_title :: "item \<Rightarrow> exn + string" where
  "cand_title it =
     (case (case title it of None \<Rightarrow> [''''] | Some ts \<Rightarrow> ts) of
        [] \<Rightarrow> Inl IndexError
      | cand # _ \<Rightarrow> Inr cand)"

fun first_exact :: "string \<Rightarrow> string \<Rightarrow> item list \<Rightarrow> exn + string" where
  "first_exact title_clean target_norm [] = Inl (ValueError (No_exact_match title_clean))"
| "first_exact title_clean target_norm (it # items) =
     (case cand_title it of
        Inl e \<Rightarrow> Inl e
      | Inr cand \<Rightarrow>
          if normalize cand = target_norm then
            (case DOI it of None \<Rightarrow> Inl (KeyError ''DOI'') | Some d \<Rightarrow> Inr d)
          else first_exact title_clean target_norm items)"

definition select_doi :: "string \<Rightarrow> item list \<Rightarrow> exn + string" where
  "select_doi title_clean items =
     (if items = [] then Inl (ValueError (No_DOI_candidates title_clean))
      else first_exact title_clean (normalize title_clean) items)"

definition search_request :: "string \<Rightarrow> string \<Rightarrow> request" where
  "search_request title_clean author =
     \<lparr>url = CROSSREF_API_WORKS,
      params = [(''query.title'', title_clean), (''query.author'', author), (''rows'', ''5'')],
      headers = [(''Accept'', ''application/json'')]\<rparr>"

definition search_doi_by_metadata ::
  "network \<Rightarrow> string \<Rightarrow> string \<Rightarrow> world \<Rightarrow> (exn + string) \<times> world"
where
  "search_doi_by_metadata net ttl author w =
     (case http_get net (search_request (clean_title ttl) author) w of
        (Inl e, w1) \<Rightarrow> (Inl e, w1)
      | (Inr None, w1) \<Rightarrow> (Inl AttributeError, w1)
      | (Inr (Some resp), w1) \<Rightarrow>
          (case json_items resp of
             None \<Rightarrow> (Inl JSONDecodeError, w1)
           | Some items \<Rightarrow> (select_doi (clean_title ttl) items, w1)))"

text \<open>
  \<^verbatim>\<open>
  def extract_arxiv_doi(arxiv_id):
      resp = http_get(ARXIV_ABS_URL + arxiv_id)
      match = re.search(r'href="(https?://doi.org/[^"]+)"', resp.text)
      if not match:
          raise ValueError(f"No journal DOI on arXiv page {arxiv_id}")
      return match.group(1).split('/')[-1]
  \<close>
  \<open>match_href s\<close> is the group of a match at the very start of \<open>s\<close>. The optional \<^verbatim>\<open>s\<close> is
  taken when it is there; without it the next character would have to be a colon. The dot
  of the pattern is any character but a newline, and the greedy class runs to the next
  double quote, which has to exist. \<^verbatim>\<open>re.search\<close> takes the leftmost match.
\<close>

definition match_href :: "string \<Rightarrow> string option" where
  "match_href s =
     (if starts_with (''href='' @ [dquote] @ ''http'') s then
        let r = drop 10 s;
            scheme = (if starts_with ''s'' r then ''https'' else ''http'');
            r1 = (if starts_with ''s'' r then drop 1 r else r)
        in if starts_with ''://doi'' r1 then
             (case drop 6 r1 of
                [] \<Rightarrow> None
              | dot # r2 \<Rightarrow>
                  let r3 = drop 4 r2; g = takeWhile (\<lambda>c. c \<noteq> dquote) r3 in
                  if dot \<noteq> newline \<and> starts_with ''org/'' r2 \<and> g \<noteq> []
                     \<and> dropWhile (\<lambda>c. c \<noteq> dquote) r3 \<noteq> []
                  then Some (scheme @ ''://doi'' @ [dot] @ ''org/'' @ g)
                  else None)
           else None
      else None)"

fun search_href :: "string \<Rightarrow> string option" where
  "search_href [] = None"
| "search_href (c # cs) =
     (case match_href (c # cs) of Some g \<Rightarrow> Some g | None \<Rightarrow> search_href cs)"

definition extract_arxiv_doi :: "network \<Rightarrow> string \<Rightarrow> world \<Rightarrow> (exn + string) \<times> world" where
  "extract_arxiv_doi net arxiv_id w =
     (case http_get net \<lparr>url = ARXIV_ABS_URL @ arxiv_id, params = [], headers = []\<rparr> w of
        (Inl e, w1) \<Rightarrow> (Inl e, w1)
      | (Inr None, w1) \<Rightarrow> (Inl AttributeError, w1)
      | (Inr (Some resp), w1) \<Rightarrow>
          (case search_href (body resp) of
             None \<Rightarrow> (Inl (ValueError (No_journal_DOI arxiv_id)), w1)
           | Some g \<Rightarrow> (Inr (split_last ''/'' [] g), w1)))"

section \<open>Record resolution pipeline\<close>

text \<open>
  A parsed entry is the dictionary the parsing library returns: its \<^verbatim>\<open>'ID'\<close> and its fields.
  The library itself, the writer and the calendar are outside the program and are
  parameters: \<open>writer_write ent\<close> is \<^verbatim>\<open>writer.write(db)\<close> for the database that holds
  \<open>ent\<close> alone, \<open>today_year\<close> is \<^verbatim>\<open>datetime.date.today().year\<close> as printed and
  \<open>today_iso\<close> is \<^verbatim>\<open>datetime.date.today().isoformat()\<close>.
\<close>

record entry =
  ID :: string
  field :: "string \<rightharpoonup> string"

record env =
  network :: network
  writer_write :: "entry \<Rightarrow> string"
  today_year :: string
  today_iso :: string

text \<open>\<^verbatim>\<open>ent.get(k, '')\<close>, and the truth value of \<^verbatim>\<open>ent.get('doi')\<close>: neither \<^verbatim>\<open>None\<close> nor empty.\<close>

definition get_or_empty :: "entry \<Rightarrow> string \<Rightarrow> string" where
  "get_or_empty ent k = (case field ent k of None \<Rightarrow> [] | Some v \<Rightarrow> v)"

definition truthy :: "string option \<Rightarrow> bool" where
  "truthy v = (case v of None \<Rightarrow> False | Some s \<Rightarrow> s \<noteq> [])"

definition claim :: "string \<Rightarrow> world \<Rightarrow> world" where
  "claim d w = emit [Claim d] (w\<lparr>used_dois := insert d (used_dois w)\<rparr>)"

text \<open>
  Branch 1 of \<^verbatim>\<open>process_bib_file\<close>, which touches neither the network nor the guard:
  \<^verbatim>\<open>
  if not doi and urlf and "doi.org" not in urlf and "arxiv.org/abs" not in urlf:
      author = ent.get('author', '')
      title  = ent.get('title', '').replace('\n',' ').strip()
      year   = ent.get('year', datetime.date.today().year)
      today  = datetime.date.today().isoformat()
      misc = (f"@misc{{{key},\n" f"  author       = {{{author}}},\n"
              f"  title        = {{{title}}},\n" f"  howpublished = {{\\url{{{urlf}}}}},\n"
              f"  year         = {{{year}}},\n" f"  note         = {{Accessed: {today}}},\n" f"}}\n")
      repl = clean_protected_case(misc)
  \<close>
\<close>

definition misc_text :: "env \<Rightarrow> string \<Rightarrow> entry \<Rightarrow> string \<Rightarrow> string" where
  "misc_text env key ent urlf =
     ''@misc{'' @ key @ '','' @ [newline]
     @ ''  author       = {'' @ get_or_empty ent ''author'' @ ''},'' @ [newline]
     @ ''  title        = {''
         @ py_strip (map (\<lambda>c. if c = newline then CHR '' '' else c) (get_or_empty ent ''title''))
         @ ''},'' @ [newline]
     @ ''  howpublished = {'' @ [backslash] @ ''url{'' @ urlf @ ''}},'' @ [newline]
     @ ''  year         = {''
         @ (case field ent ''year'' of None \<Rightarrow> today_year env | Some y \<Rightarrow> y) @ ''},'' @ [newline]
     @ ''  note         = {Accessed: '' @ today_iso env @ ''},'' @ [newline]
     @ ''}'' @ [newline]"

definition branch_url_only ::
  "env \<Rightarrow> string \<Rightarrow> entry \<Rightarrow> string option \<Rightarrow> string \<Rightarrow> string option"
where
  "branch_url_only env key ent doi urlf =
     (if \<not> truthy doi \<and> urlf \<noteq> [] \<and> \<not> contains ''doi.org'' urlf
         \<and> \<not> contains ''arxiv.org/abs'' urlf
      then Some (clean_protected_case (misc_text env key ent urlf))
      else None)"

text \<open>
  Branch 2:
  \<^verbatim>\<open>
  if repl is None and not doi and 'arxiv.org/abs' in urlf:
      aid = urlf.rstrip('/').split('/')[-1]
      try:
          arxiv_doi = extract_arxiv_doi(aid)
          if arxiv_doi not in used_dois:
              repl = fetch_bibtex_from_doi(arxiv_doi)
              used_dois.add(arxiv_doi)
      except Exception:
          pass
  \<close>
\<close>

definition branch_arxiv ::
  "env \<Rightarrow> string option \<Rightarrow> string \<Rightarrow> string option \<Rightarrow> world \<Rightarrow> string option \<times> world"
where
  "branch_arxiv env doi urlf repl w =
     (if repl = None \<and> \<not> truthy doi \<and> contains ''arxiv.org/abs'' urlf then
        (case extract_arxiv_doi (network env) (split_last ''/'' [] (py_rstrip ''/'' urlf)) w of
           (Inl e, w1) \<Rightarrow> (repl, w1)
         | (Inr arxiv_doi, w1) \<Rightarrow>
             if arxiv_doi \<notin> used_dois w1 then
               (case fetch_bibtex_from_doi (network env) arxiv_doi w1 of
                  (Inl e, w2) \<Rightarrow> (repl, w2)
                | (Inr txt, w2) \<Rightarrow> (Some txt, claim arxiv_doi w2))
             else (repl, w1))
      else (repl, w))"

text \<open>
  Branch 3:
  \<^verbatim>\<open>
  if repl is None and not doi:
      try:
          found = search_doi_by_metadata(ent.get('title',''), ent.get('author',''))
          if found not in used_dois:
              repl = fetch_bibtex_from_doi(found)
              used_dois.add(found)
          else:
              print(f" SKIPPING duplicate DOI {found} for {key}")
      except Exception as e:
          print(f" ... metadata search failed for {key}: {e}")
  \<close>
\<close>

definition branch_metadata ::
  "env \<Rightarrow> string \<Rightarrow> entry \<Rightarrow> string option \<Rightarrow> string option \<Rightarrow> world \<Rightarrow> string option \<times> world"
where
  "branch_metadata env key ent doi repl w =
     (if repl = None \<and> \<not> truthy doi then
        (case search_doi_by_metadata (network env)
                (get_or_empty ent ''title'') (get_or_empty ent ''author'') w of
           (Inl e, w1) \<Rightarrow> (repl, emit [Print (Metadata_failed key e)] w1)
         | (Inr found, w1) \<Rightarrow>
             if found \<notin> used_dois w1 then
               (case fetch_bibtex_from_doi (network env) found w1 of
                  (Inl e, w2) \<Rightarrow> (repl, emit [Print (Metadata_failed key e)] w2)
                | (Inr txt, w2) \<Rightarrow> (Some txt, claim found w2))
             else (repl, emit [Print (Skipping_duplicate found key)] w1))
      else (repl, w))"

text \<open>
  Branch 4, the only one whose fetch is outside a \<^verbatim>\<open>try\<close>: its exception leaves
  \<^verbatim>\<open>process_bib_file\<close>.
  \<^verbatim>\<open>
  if repl is None and doi:
      if doi not in used_dois:
          repl = fetch_bibtex_from_doi(doi)
          used_dois.add(doi)
  \<close>
\<close>

definition branch_direct ::
  "env \<Rightarrow> string option \<Rightarrow> string option \<Rightarrow> world \<Rightarrow> (exn + string option) \<times> world"
where
  "branch_direct env doi repl w =
     (case doi of
        None \<Rightarrow> (Inr repl, w)
      | Some d \<Rightarrow>
          if repl = None \<and> d \<noteq> [] then
            if d \<notin> used_dois w then
              (case fetch_bibtex_from_doi (network env) d w of
                 (Inl e, w1) \<Rightarrow> (Inl e, w1)
               | (Inr txt, w1) \<Rightarrow> (Inr (Some txt), claim d w1))
            else (Inr repl, w)
          else (Inr repl, w))"

text \<open>
  Branch 5:
  \<^verbatim>\<open>
  if repl is None:
      db = BibDatabase()
      db.entries = [ent]
      repl = clean_protected_case(writer.write(db))
  \<close>
\<close>

definition branch_fallback :: "env \<Rightarrow> entry \<Rightarrow> string option \<Rightarrow> string" where
  "branch_fallback env ent repl =
     (case repl of None \<Rightarrow> clean_protected_case (writer_write env ent) | Some txt \<Rightarrow> txt)"

text \<open>
  The body of \<^verbatim>\<open>if ent:\<close>, the five blocks in the order of the source, each one reading the
  \<^verbatim>\<open>repl\<close> the previous ones left:
  \<^verbatim>\<open>
  doi  = ent.get('doi')
  urlf = ent.get('url', '').strip()
  \<close>
\<close>

definition process_entry :: "env \<Rightarrow> string \<Rightarrow> entry \<Rightarrow> world \<Rightarrow> (exn + string) \<times> world" where
  "process_entry env key ent w =
     (let doi = field ent ''doi'';
          urlf = py_strip (get_or_empty ent ''url'');
          repl1 = branch_url_only env key ent doi urlf
      in case branch_arxiv env doi urlf repl1 w of
           (repl2, w2) \<Rightarrow>
             (case branch_metadata env key ent doi repl2 w2 of
                (repl3, w3) \<Rightarrow>
                  (case branch_direct env doi repl3 w3 of
                     (Inl e, w4) \<Rightarrow> (Inl e, w4)
                   | (Inr repl4, w4) \<Rightarrow> (Inr (branch_fallback env ent repl4), w4))))"

text \<open>
  The raw block, for a match whose key the parsing library did not return:
  \<^verbatim>\<open>
  block = m.group(0)
  m1 = re.search(r'DOI\s*=\s*\{([^}]+)\}', block, re.IGNORECASE)
  doi = m1.group(1) if m1 else None
  if not doi:
      m2 = re.search(r'url\s*=\s*\{([^}]+)\}', block, re.IGNORECASE)
      if m2 and 'doi.org' in m2.group(1):
          doi = m2.group(1).split('doi.org/')[-1]
  if doi and doi not in used_dois:
      try:
          repl = fetch_bibtex_from_doi(doi)
          used_dois.add(doi)
      except Exception:
          pass
  if repl is None:
      repl = clean_protected_case(block)
  \<close>
  \<open>match_field name s\<close> is the group of a match of \<^verbatim>\<open>name\s*=\s*\{([^}]+)\}\<close> at the very start
  of \<open>s\<close>, the name compared without regard to case (\<open>name\<close> is given in lower case).
\<close>

definition match_field :: "string \<Rightarrow> string \<Rightarrow> string option" where
  "match_field name s =
     (if length name \<le> length s \<and> py_lower (take (length name) s) = name then
        (case dropWhile is_space (drop (length name) s) of
           [] \<Rightarrow> None
         | e # r3 \<Rightarrow>
             (case dropWhile is_space r3 of
                [] \<Rightarrow> None
              | b # r5 \<Rightarrow>
                  let g = takeWhile (\<lambda>c. c \<noteq> CHR ''}'') r5 in
                  if e = CHR ''='' \<and> b = CHR ''{'' \<and> g \<noteq> []
                     \<and> dropWhile (\<lambda>c. c \<noteq> CHR ''}'') r5 \<noteq> []
                  then Some g else None))
      else None)"

fun search_field :: "string \<Rightarrow> string \<Rightarrow> string option" where
  "search_field name [] = None"
| "search_field name (c # cs) =
     (case match_field name (c # cs) of Some g \<Rightarrow> Some g | None \<Rightarrow> search_field name cs)"

definition raw_doi :: "string \<Rightarrow> string option" where
  "raw_doi block =
     (case search_field ''doi'' block of
        Some g \<Rightarrow> Some g
      | None \<Rightarrow>
          (case search_field ''url'' block of
             None \<Rightarrow> None
           | Some u \<Rightarrow> if contains ''doi.org'' u then Some (split_last ''doi.org/'' [] u) else None))"

definition process_raw :: "env \<Rightarrow> string \<Rightarrow> world \<Rightarrow> string \<times> world" where
  "process_raw env block w =
     (case raw_doi block of
        None \<Rightarrow> (clean_protected_case block, w)
      | Some d \<Rightarrow>
          if d \<noteq> [] \<and> d \<notin> used_dois w then
            (case fetch_bibtex_from_doi (network env) d w of
               (Inl e, w1) \<Rightarrow> (clean_protected_case block, w1)
             | (Inr txt, w1) \<Rightarrow> (txt, claim d w1))
          else (clean_protected_case block, w))"

section \<open>Boundary scan and the whole run\<close>

text \<open>
  \<^verbatim>\<open>
  entry_pattern = re.compile(
      r'@(?P<type>\w+)\{(?P<key>[^,]+),(?P<body>.*?)(?=(^@\w+\{)|\Z)',
      re.DOTALL | re.MULTILINE)
  \<close>
  \<open>at_marker s\<close>: the text \<open>s\<close> starts with \<^verbatim>\<open>@\w+\{\<close>. Under \<^verbatim>\<open>MULTILINE\<close> the anchor
  \<^verbatim>\<open>^\<close> holds at an offset whose previous character is a newline (the start of the text is
  never the end of a body). \<open>body_length prev s\<close> is the length of the lazy body that is
  followed by \<open>s\<close> minus its body, \<open>prev\<close> being the character before \<open>s\<close>: the body stops at
  the first marker at the start of a line, or at the end of the text. \<open>match_entry s\<close> is the
  match at the very start of \<open>s\<close>, as the key and the length of the matched text; the
  greedy classes meet a character outside them, so there is one way to match.
\<close>

definition at_marker :: "string \<Rightarrow> bool" where
  "at_marker s =
     (case s of
        [] \<Rightarrow> False
      | a # r \<Rightarrow>
          a = CHR ''@'' \<and> takeWhile is_word r \<noteq> []
          \<and> (case dropWhile is_word r of [] \<Rightarrow> False | b # _ \<Rightarrow> b = CHR ''{''))"

fun body_length :: "char \<Rightarrow> string \<Rightarrow> nat" where
  "body_length prev [] = 0"
| "body_length prev (c # cs) =
     (if prev = newline \<and> at_marker (c # cs) then 0 else Suc (body_length c cs))"

definition match_entry :: "string \<Rightarrow> (string \<times> nat) option" where
  "match_entry s =
     (case s of
        [] \<Rightarrow> None
      | a # r \<Rightarrow>
          (case dropWhile is_word r of
             [] \<Rightarrow> None
           | b # r1 \<Rightarrow>
               (case dropWhile (\<lambda>c. c \<noteq> CHR '','') r1 of
                  [] \<Rightarrow> None
                | comma # r2 \<Rightarrow>
                    let ty = takeWhile is_word r; key = takeWhile (\<lambda>c. c \<noteq> CHR '','') r1 in
                    if a = CHR ''@'' \<and> ty \<noteq> [] \<and> b = CHR ''{'' \<and> key \<noteq> []
                    then Some (key, 1 + length ty + 1 + length key + 1 + body_length comma r2)
                    else None)))"

text \<open>
  A match object, as far as the program reads it: \<^verbatim>\<open>m.group('key')\<close>, \<^verbatim>\<open>m.span()\<close> and
  \<^verbatim>\<open>m.group(0)\<close>. \<^verbatim>\<open>finditer\<close> yields the matches from left to right, each search starting
  where the previous match ended; \<open>pos\<close> is the offset of the text that is left.
\<close>

record rematch =
  m_key :: string
  m_start :: nat
  m_end :: nat
  m_block :: string

fun finditer :: "nat \<Rightarrow> string \<Rightarrow> rematch list" where
  "finditer pos [] = []"
| "finditer pos (c # cs) =
     (case match_entry (c # cs) of
        None \<Rightarrow> finditer (pos + 1) cs
      | Some (key, len) \<Rightarrow>
          \<lparr>m_key = key, m_start = pos, m_end = pos + len, m_block = take len (c # cs)\<rparr>
            # finditer (pos + len) (drop (len - 1) cs))"

text \<open>
  \<^verbatim>\<open>structured = {e['ID']: e for e in bibtexparser.load(...).entries}\<close>: a later entry
  replaces an earlier one with the same key.
\<close>

definition structured_of :: "entry list \<Rightarrow> (string \<rightharpoonup> entry)" where
  "structured_of entries = fold (\<lambda>e m. m(ID e \<mapsto> e)) entries Map.empty"

text \<open>
  The loop over the matches. An exception that leaves a record's processing leaves the
  function: nothing is written. Otherwise the replacements are spliced into the text,
  which stands for the file written at the end. The text of the input file and the entries
  the parsing library returns for it are the arguments.
\<close>

definition process_match ::
  "env \<Rightarrow> (string \<rightharpoonup> entry) \<Rightarrow> rematch \<Rightarrow> world \<Rightarrow> (exn + replacement) \<times> world"
where
  "process_match env structured m w =
     (case structured (m_key m) of
        Some ent \<Rightarrow>
          (case process_entry env (m_key m) ent w of
             (Inl e, w1) \<Rightarrow> (Inl e, w1)
           | (Inr repl, w1) \<Rightarrow>
               (Inr \<lparr>r_start = m_start m, r_end = m_end m, r_text = repl\<rparr>, w1))
      | None \<Rightarrow>
          (case process_raw env (m_block m) w of
             (repl, w1) \<Rightarrow> (Inr \<lparr>r_start = m_start m, r_end = m_end m, r_text = repl\<rparr>, w1)))"

fun process_matches ::
  "env \<Rightarrow> (string \<rightharpoonup> entry) \<Rightarrow> rematch list \<Rightarrow> replacement list \<Rightarrow> world
     \<Rightarrow> (exn + replacement list) \<times> world"
where
  "process_matches env structured [] replacements w = (Inr replacements, w)"
| "process_matches env structured (m # ms) replacements w =
     (case process_match env structured m w of
        (Inl e, w1) \<Rightarrow> (Inl e, w1)
      | (Inr r, w1) \<Rightarrow> process_matches env structured ms (replacements @ [r]) w1)"

definition process_bib_file ::
  "env \<Rightarrow> string \<Rightarrow> entry list \<Rightarrow> world \<Rightarrow> (exn + string) \<times> world"
where
  "process_bib_file env raw_text entries w =
     (case process_matches env (structured_of entries) (finditer 0 raw_text) [] w of
        (Inl e, w1) \<Rightarrow> (Inl e, w1)
      | (Inr replacements, w1) \<Rightarrow>
          (Inr (apply_replacements raw_text replacements), emit [Print Finished] w1))"

section \<open>Reading the log\<close>

text \<open>
  The deduplication guard along a log. \<open>used_after U es\<close> is the set \<^verbatim>\<open>used_dois\<close> after the
  events \<open>es\<close>, when it was \<open>U\<close> before them. \<open>guarded U p es\<close> holds when every \<open>Fetch d\<close> of
  \<open>es\<close> happens while \<open>d\<close> is not in \<^verbatim>\<open>used_dois\<close>, and every \<open>Claim d\<close> comes behind the
  \<open>Fetch d\<close> with no other fetch or claim in between (\<open>p\<close> is the identifier fetched last and
  not claimed yet). \<open>claimed_first U es\<close> is the order the specification asks for instead:
  every \<open>Fetch d\<close> happens while \<open>d\<close> is in \<^verbatim>\<open>used_dois\<close> already.
\<close>

fun used_after :: "string set \<Rightarrow> event list \<Rightarrow> string set" where
  "used_after U [] = U"
| "used_after U (Claim d # es) = used_after (insert d U) es"
| "used_after U (e # es) = used_after U es"

fun pending_after :: "string option \<Rightarrow> event list \<Rightarrow> string option" where
  "pending_after p [] = p"
| "pending_after p (Fetch d # es) = pending_after (Some d) es"
| "pending_after p (Claim d # es) = pending_after None es"
| "pending_after p (e # es) = pending_after p es"

fun guarded :: "string set \<Rightarrow> string option \<Rightarrow> event list \<Rightarrow> bool" where
  "guarded U p [] = True"
| "guarded U p (Fetch d # es) = (d \<notin> U \<and> guarded U (Some d) es)"
| "guarded U p (Claim d # es) = (p = Some d \<and> guarded (insert d U) None es)"
| "guarded U p (e # es) = guarded U p es"

fun claimed_first :: "string set \<Rightarrow> event list \<Rightarrow> bool" where
  "claimed_first U [] = True"
| "claimed_first U (Fetch d # es) = (d \<in> U \<and> claimed_first U es)"
| "claimed_first U (Claim d # es) = claimed_first (insert d U) es"
| "claimed_first U (e # es) = claimed_first U es"

text \<open>The fetches of a log, in order, and whether a log reports a skipped duplicate.\<close>

fun fetches :: "event list \<Rightarrow> string list" where
  "fetches [] = []"
| "fetches (Fetch d # es) = d # fetches es"
| "fetches (e # es) = fetches es"


text \<open>
  \<open>quiet es\<close>: the events are requests, sleeps and printed lines only. \<open>follows w w'\<close>: the
  world \<open>w'\<close> is \<open>w\<close> with events added to the log that respect the guard, whatever fetch
  was pending, and \<^verbatim>\<open>used_dois\<close> changed by the claims among them only.
\<close>

fun quiet :: "event list \<Rightarrow> bool" where
  "quiet [] = True"
| "quiet (Fetch d # es) = False"
| "quiet (Claim d # es) = False"
| "quiet (e # es) = quiet es"

definition follows :: "world \<Rightarrow> world \<Rightarrow> bool" where
  "follows w w' =
     (\<exists>es. log w' = log w @ es \<and> used_dois w' = used_after (used_dois w) es
           \<and> (\<forall>p. guarded (used_dois w) p es))"

section \<open>Replaying the log\<close>




section \<open>Example runs\<close>

text \<open>
  Concrete surroundings for evaluating the program: a network that answers by the URL
  alone (404 for a URL it does not know), a stand-in for the writer of the parsing library,
  a fixed date, and the world at the start of a run from the command line, where
  \<^verbatim>\<open>used_dois\<close> is the empty set the module creates.
\<close>

definition served :: "(string \<times> response) list \<Rightarrow> network" where
  "served table n rq =
     (case map_of table (url rq) of
        Some resp \<Rightarrow> Reply resp
      | None \<Rightarrow> Reply \<lparr>status_code = 404, body = [], json_items = None\<rparr>)"

definition page :: "string \<Rightarrow> response" where
  "page txt = \<lparr>status_code = 200, body = txt, json_items = None\<rparr>"

definition failing :: "nat \<Rightarrow> response" where
  "failing code = \<lparr>status_code = code, body = [], json_items = None\<rparr>"

definition candidates :: "item list \<Rightarrow> response" where
  "candidates items = \<lparr>status_code = 200, body = [], json_items = Some items\<rparr>"

definition example_writer :: "entry \<Rightarrow> string" where
  "example_writer ent = ''@entry{'' @ ID ent @ '',}'' @ [newline]"

definition example_env :: "network \<Rightarrow> env" where
  "example_env net =
     \<lparr>network = net, writer_write = example_writer, today_year = ''2025'',
      today_iso = ''2025-06-01''\<rparr>"

definition start :: world where
  "start = \<lparr>clock = 0, log = [], used_dois = {}\<rparr>"

fun requested :: "event list \<Rightarrow> string list" where
  "requested [] = []"
| "requested (Get rq # es) = url rq # requested es"
| "requested (e # es) = requested es"

text \<open>
  A record with a preprint link and no identifier field; its abstract page links to
  \<^verbatim>\<open>https://doi.org/10.2/y\<close>, and the citation service knows \<^verbatim>\<open>10.2/y\<close> and nothing else.
\<close>

definition arxiv_entry :: entry where
  "arxiv_entry = \<lparr>ID = ''k'', field = [''url'' \<mapsto> ''https://arxiv.org/abs/1234.5678'']\<rparr>"

definition arxiv_page :: string where
  "arxiv_page = ''<a href='' @ [dquote] @ ''https://doi.org/10.2/y'' @ [dquote] @ ''>doi</a>''"

definition arxiv_net :: network where
  "arxiv_net =
     served [(''https://arxiv.org/abs/1234.5678'', page arxiv_page),
             (''https://doi2bib.org/bib/10.2/y'', page ''@article{y,}'')]"

text \<open>
  Two records without an identifier field and with the same title, which the metadata
  search resolves to \<^verbatim>\<open>10.3/z\<close>; the citation service fails (status 500) in \<open>down_net\<close> and
  answers in \<open>up_net\<close>.
\<close>

definition twin_text :: string where
  "twin_text = ''@article{a, title={T}}'' @ [newline] @ ''@article{b, title={T}}'' @ [newline]"

definition twin_entries :: "entry list" where
  "twin_entries = [\<lparr>ID = ''a'', field = [''title'' \<mapsto> ''T'']\<rparr>,
                   \<lparr>ID = ''b'', field = [''title'' \<mapsto> ''T'']\<rparr>]"

definition down_net :: network where
  "down_net =
     served [(''https://api.crossref.org/works'',
                candidates [\<lparr>title = Some [''T''], DOI = Some ''10.3/z''\<rparr>]),
             (''https://doi2bib.org/bib/10.3/z'', failing 500)]"

definition up_net :: network where
  "up_net =
     served [(''https://api.crossref.org/works'',
                candidates [\<lparr>title = Some [''T''], DOI = Some ''10.3/z''\<rparr>]),
             (''https://doi2bib.org/bib/10.3/z'', page ''@article{z,}'')]"

text \<open>
  Two records that carry the same identifier field and a link; and two records that share
  the citation key \<open>k\<close> with different identifier fields.
\<close>

definition same_doi_text :: string where
  "same_doi_text = ''@article{a, doi={10.1/x}, url={http://e.org/p}}'' @ [newline]
                 @ ''@article{b, doi={10.1/x}, url={http://e.org/q}}'' @ [newline]"

definition same_doi_entries :: "entry list" where
  "same_doi_entries =
     [\<lparr>ID = ''a'', field = [''doi'' \<mapsto> ''10.1/x'', ''url'' \<mapsto> ''http://e.org/p'']\<rparr>,
      \<lparr>ID = ''b'', field = [''doi'' \<mapsto> ''10.1/x'', ''url'' \<mapsto> ''http://e.org/q'']\<rparr>]"

definition same_key_text :: string where
  "same_key_text = ''@article{k, doi={10.1/x}}'' @ [newline] @ ''@article{k, doi={10.9/w}}'' @ [newline]"

definition same_key_entries :: "entry list" where
  "same_key_entries = [\<lparr>ID = ''k'', field = [''doi'' \<mapsto> ''10.1/x'']\<rparr>,
                       \<lparr>ID = ''k'', field = [''doi'' \<mapsto> ''10.9/w'']\<rparr>]"

definition doi_net :: network where
  "doi_net =
     served [(''https://doi2bib.org/bib/10.1/x'', page ''@article{x,}''),
             (''https://doi2bib.org/bib/10.9/w'', page ''@article{w,}'')]"

text \<open>
  The scenario of the specification: one record with an identifier field, whose citation
  the service returns.
\<close>

definition scenario_text :: string where
  "scenario_text = ''@article{k1, title={{A}new result}, doi={10.1/x}}''"

definition scenario_entries :: "entry list" where
  "scenario_entries =
     [\<lparr>ID = ''k1'', field = [''title'' \<mapsto> ''{A}new result'', ''doi'' \<mapsto> ''10.1/x'']\<rparr>]"

text \<open>
  Candidates of a metadata search for the title \<^verbatim>\<open>{A} New Result\<close>: one whose title differs
  by a letter, one whose title is equal after normalizing, and a later one that is equal
  as well; one whose title differs from the query in the case of its letters only; one
  whose title list is empty; and one with an equal title and no identifier.
\<close>

definition near_miss :: item where
  "near_miss = \<lparr>title = Some [''A new results''], DOI = Some ''10.5/near''\<rparr>"

definition exact_hit :: item where
  "exact_hit = \<lparr>title = Some [''A New Result!''], DOI = Some ''10.5/exact''\<rparr>"

definition later_hit :: item where
  "later_hit = \<lparr>title = Some [''a new result'', ''subtitle''], DOI = Some ''10.5/later''\<rparr>"

definition case_hit :: item where
  "case_hit = \<lparr>title = Some [''a NEW result''], DOI = Some ''10.5/case''\<rparr>"

definition untitled :: item where
  "untitled = \<lparr>title = Some [], DOI = Some ''10.5/untitled''\<rparr>"

definition unidentified :: item where
  "unidentified = \<lparr>title = Some [''A New Result''], DOI = None\<rparr>"

definition search_net :: "item list \<Rightarrow> network" where
  "search_net items = served [(''https://api.crossref.org/works'', candidates items)]"

section \<open>Properties of the text normalizer\<close>

lemma strip_single_fixed: "\<not> has_single s \<Longrightarrow> strip_single s = s"
  by (induction s rule: strip_single.induct) auto

lemma strip_single_length_le: "length (strip_single s) \<le> length s"
  by (induction s rule: strip_single.induct) auto

lemma strip_single_shrinks: "has_single s \<Longrightarrow> length (strip_single s) < length s"
proof (induction s rule: strip_single.induct)
  case (1 a b c cs)
  show ?case
  proof (cases "a = CHR ''{'' \<and> is_letter b \<and> c = CHR ''}''")
    case True
    have "length (strip_single cs) \<le> length cs" by (rule strip_single_length_le)
    with True show ?thesis by simp
  next
    case False
    with 1 show ?thesis by auto
  qed
qed simp_all

lemma has_single_Cons: "has_single s \<Longrightarrow> has_single (c # s)"
  by (cases s rule: has_single.cases) auto

lemma has_single_append: "has_single s \<Longrightarrow> has_single (p @ s)"
  by (induction p) (auto intro: has_single_Cons)

lemma match_title_shape:
  assumes "match_title s = Some (repl, len)"
  shows "\<exists>g1 x g3 rest. is_letter x
           \<and> s = g1 @ CHR ''{'' # CHR ''{'' # x # CHR ''}'' # g3 @ CHR ''}'' # rest
           \<and> repl = g1 @ CHR ''{'' # x # g3 @ [CHR ''}''] \<and> len = length g1 + 4 + length g3 + 1
           \<and> g1 \<noteq> [] \<and> last g1 \<noteq> CHR ''{''"
proof -
  from assms obtain r3 r5 x where
    t: "take 5 s = ''title''" and
    r2: "dropWhile is_space (drop 5 s) = CHR ''='' # r3" and
    r4: "dropWhile is_space r3 = CHR ''{'' # CHR ''{'' # x # CHR ''}'' # r5" and
    x: "is_letter x" and r5: "CHR ''}'' \<in> set r5" and
    repl: "repl = (''title'' @ takeWhile is_space (drop 5 s) @ ''='' @ takeWhile is_space r3)
             @ ''{'' @ [x] @ takeWhile (\<lambda>c. c \<noteq> CHR ''}'') r5 @ ''}''" and
    len: "len = length (''title'' @ takeWhile is_space (drop 5 s) @ ''='' @ takeWhile is_space r3)
             + 4 + length (takeWhile (\<lambda>c. c \<noteq> CHR ''}'') r5) + 1"
    by (auto simp: match_title_def Let_def split: if_splits list.splits)
  define g1 where "g1 = ''title'' @ takeWhile is_space (drop 5 s) @ ''='' @ takeWhile is_space r3"
  define g3 where "g3 = takeWhile (\<lambda>c. c \<noteq> CHR ''}'') r5"
  have "dropWhile (\<lambda>c. c \<noteq> CHR ''}'') r5 \<noteq> []" using r5 by (simp add: dropWhile_eq_Nil_conv)
  moreover have "dropWhile (\<lambda>c. c \<noteq> CHR ''}'') r5 \<noteq> [] \<Longrightarrow>
      hd (dropWhile (\<lambda>c. c \<noteq> CHR ''}'') r5) = CHR ''}''"
    using hd_dropWhile[of "\<lambda>c. c \<noteq> CHR ''}''" r5] by simp
  ultimately obtain rest where d: "dropWhile (\<lambda>c. c \<noteq> CHR ''}'') r5 = CHR ''}'' # rest"
    by (cases "dropWhile (\<lambda>c. c \<noteq> CHR ''}'') r5") auto
  have e5: "r5 = g3 @ CHR ''}'' # rest"
    unfolding g3_def d[symmetric] by simp
  have e3: "r3 = takeWhile is_space r3 @ CHR ''{'' # CHR ''{'' # x # CHR ''}'' # r5"
    unfolding r4[symmetric] by simp
  have e1: "drop 5 s = takeWhile is_space (drop 5 s) @ CHR ''='' # r3"
    unfolding r2[symmetric] by simp
  have "s = take 5 s @ drop 5 s" by simp
  also have "\<dots> = ''title'' @ takeWhile is_space (drop 5 s) @ CHR ''='' # r3"
    using t e1 by simp
  also have "\<dots> = g1 @ CHR ''{'' # CHR ''{'' # x # CHR ''}'' # r5"
    unfolding g1_def using e3 by simp
  finally have s: "s = g1 @ CHR ''{'' # CHR ''{'' # x # CHR ''}'' # g3 @ CHR ''}'' # rest"
    using e5 by simp
  have ne: "g1 \<noteq> []" by (simp add: g1_def)
  have "last g1 = CHR ''='' \<or> last g1 \<in> set (takeWhile is_space r3)"
    by (cases "takeWhile is_space r3 = []") (simp_all add: g1_def)
  moreover have "\<not> is_space CHR ''{''" by (simp add: is_space_def)
  ultimately have "last g1 \<noteq> CHR ''{''" by (auto dest: set_takeWhileD)
  with s x repl len ne show ?thesis unfolding g1_def[symmetric] g3_def[symmetric] by auto
qed

lemma match_title_has_single: "match_title s = Some p \<Longrightarrow> has_single s"
proof -
  assume "match_title s = Some p"
  then obtain g1 x g3 rest where "is_letter x"
    "s = (g1 @ [CHR ''{'']) @ CHR ''{'' # x # CHR ''}'' # g3 @ CHR ''}'' # rest"
    using match_title_shape[of s "fst p" "snd p"] by auto
  then show ?thesis by (metis has_single_append has_single.simps(1))
qed

lemma has_single_tl: "\<not> has_single (c # cs) \<Longrightarrow> \<not> has_single cs"
  using has_single_Cons by blast

lemma sub_title_fixed: "\<not> has_single s \<Longrightarrow> sub_title s = s"
proof (induction s)
  case Nil show ?case by simp
next
  case (Cons c cs)
  have "match_title (c # cs) = None"
    using Cons.prems match_title_has_single by (cases "match_title (c # cs)") auto
  then show ?case using Cons.IH has_single_tl[OF Cons.prems] by simp
qed

lemma sub_title_length:
  "length (sub_title s) \<le> length s \<and> (sub_title s \<noteq> s \<longrightarrow> length (sub_title s) < length s)"
proof (induction s rule: sub_title.induct)
  case 1 show ?case by simp
next
  case (2 c cs)
  show ?case
  proof (cases "match_title (c # cs)")
    case None
    with 2 show ?thesis by simp
  next
    case (Some p)
    obtain repl len where p: "p = (repl, len)" by (cases p)
    from match_title_shape[OF Some[unfolded p]] obtain g1 x g3 rest where
      sh: "c # cs = g1 @ CHR ''{'' # CHR ''{'' # x # CHR ''}'' # g3 @ CHR ''}'' # rest"
        "repl = g1 @ CHR ''{'' # x # g3 @ [CHR ''}'']" "len = length g1 + 4 + length g3 + 1"
      by blast
    have len: "length (c # cs) = len + length rest" "length repl + 2 = len"
      using sh by (simp_all add: arg_cong[OF sh(1), of length])
    have "length (sub_title (drop (len - 1) cs)) \<le> length (drop (len - 1) cs)"
      using 2(2)[OF Some[unfolded p] refl] by simp
    also have "\<dots> = length rest" using len by simp
    finally have "length (sub_title (c # cs)) < length (c # cs)"
      using Some p len by simp
    then show ?thesis by simp
  qed
qed

lemma letter_not_brace: "is_letter c \<Longrightarrow> c \<noteq> CHR ''{'' \<and> c \<noteq> CHR ''}''"
  by (auto simp: is_letter_def)

lemma has_double_Cons: "has_double s \<Longrightarrow> has_double (a # s)"
  by (cases s rule: has_double.cases) auto

lemma has_double_append_left: "has_double s \<Longrightarrow> has_double (p @ s)"
  by (induction p) (auto intro: has_double_Cons)

lemma has_double_ConsD:
  "has_double (a # s) \<Longrightarrow>
   (a = CHR ''{'' \<and> (\<exists>L r. s = CHR ''{'' # L # CHR ''}'' # CHR ''}'' # r \<and> is_letter L)) \<or> has_double s"
  by (cases "a # s" rule: has_double.cases) auto

lemma has_double_start:
  "is_letter L \<Longrightarrow> has_double (CHR ''{'' # CHR ''{'' # L # CHR ''}'' # CHR ''}'' # r)"
  by simp

lemma has_single_ConsD:
  "has_single (a # s) \<Longrightarrow>
   (a = CHR ''{'' \<and> (\<exists>L r. s = L # CHR ''}'' # r \<and> is_letter L)) \<or> has_single s"
  by (cases "a # s" rule: has_single.cases) auto

lemma strip_single_head:
  "strip_single s = c # r \<Longrightarrow>
   (\<exists>r'. s = c # r') \<or> (is_letter c \<and> (\<exists>r'. s = CHR ''{'' # c # CHR ''}'' # r'))"
  by (cases s rule: strip_single.cases) (auto split: if_splits)

lemma strip_single_creates:
  "has_single (strip_single s) \<Longrightarrow> has_double s"
proof (induction s rule: strip_single.induct)
  case (1 a b c cs)
  show ?case
  proof (cases "a = CHR ''{'' \<and> is_letter b \<and> c = CHR ''}''")
    case True
    with 1(3) have h: "has_single (b # strip_single cs)" by simp
    from True have "b \<noteq> CHR ''{''" using letter_not_brace by blast
    with has_single_ConsD[OF h] have "has_single (strip_single cs)" by blast
    with 1(1) True have "has_double cs" by blast
    then show ?thesis using has_double_append_left[of cs "[a, b, c]"] by simp
  next
    case False
    with 1(3) have h: "has_single (a # strip_single (b # c # cs))" by simp
    from has_single_ConsD[OF h] show ?thesis
    proof
      assume "has_single (strip_single (b # c # cs))"
      with 1(2) False have "has_double (b # c # cs)" by blast
      then show ?thesis by (rule has_double_Cons)
    next
      assume w: "a = CHR ''{'' \<and> (\<exists>L r. strip_single (b # c # cs) = L # CHR ''}'' # r \<and> is_letter L)"
      then obtain L r where a: "a = CHR ''{''" and t: "strip_single (b # c # cs) = L # CHR ''}'' # r"
        and L: "is_letter L" by blast
      from strip_single_head[OF t] show ?thesis
      proof
        assume "\<exists>r'. b # c # cs = L # r'"
        then have bL: "b = L" by simp
        have "strip_single (c # cs) = CHR ''}'' # r \<or> (b = CHR ''{'')"
          using t bL by (cases cs) (auto split: if_splits)
        with bL L letter_not_brace have "strip_single (c # cs) = CHR ''}'' # r" by blast
        from strip_single_head[OF this] have "c = CHR ''}''"
          using letter_not_brace by (auto simp: is_letter_def)
        with a bL L False show ?thesis by simp
      next
        assume "is_letter L \<and> (\<exists>r'. b # c # cs = CHR ''{'' # L # CHR ''}'' # r')"
        then obtain r' where s: "b = CHR ''{''" "c = L" "cs = CHR ''}'' # r'" by auto
        with t L have "strip_single r' = CHR ''}'' # r" by simp
        from strip_single_head[OF this] have "\<exists>r''. r' = CHR ''}'' # r''"
          by (auto simp: is_letter_def)
        with a s L show ?thesis by auto
      qed
    qed
  qed
qed simp_all


lemma insert_braces_double:
  assumes "has_double (B @ CHR ''{'' # x # g3 @ CHR ''}'' # R)"
    and "B = [] \<or> last B \<noteq> CHR ''{''" and "is_letter x"
  shows "has_double (B @ CHR ''{'' # CHR ''{'' # x # CHR ''}'' # g3 @ CHR ''}'' # R)"
  using assms
proof (induction B)
  case Nil
  let ?T = "g3 @ CHR ''}'' # R"
  from Nil have h: "has_double (CHR ''{'' # x # ?T)" by simp
  have x: "x \<noteq> CHR ''{''" using Nil(3) letter_not_brace by blast
  from has_double_ConsD[OF h] x have "has_double (x # ?T)" by auto
  from has_double_ConsD[OF this] x have "has_double ?T" by auto
  then show ?case
    using has_double_append_left[of ?T "[CHR ''{'', CHR ''{'', x, CHR ''}'']"] by simp
next
  case (Cons b B)
  let ?T = "CHR ''{'' # x # g3 @ CHR ''}'' # R"
  let ?T2 = "CHR ''{'' # CHR ''{'' # x # CHR ''}'' # g3 @ CHR ''}'' # R"
  from Cons.prems(1) have h: "has_double (b # (B @ ?T))" by simp
  have lastB: "B = [] \<or> last B \<noteq> CHR ''{''" using Cons.prems(2) by (auto split: if_splits)
  from has_double_ConsD[OF h] show ?case
  proof
    assume "has_double (B @ ?T)"
    from Cons.IH[OF this lastB Cons.prems(3)] show ?thesis by (simp add: has_double_Cons)
  next
    assume w: "b = CHR ''{'' \<and> (\<exists>L r. B @ ?T = CHR ''{'' # L # CHR ''}'' # CHR ''}'' # r \<and> is_letter L)"
    then obtain L r where b: "b = CHR ''{''" and e: "B @ ?T = CHR ''{'' # L # CHR ''}'' # CHR ''}'' # r"
      and L: "is_letter L" by blast
    have x: "x \<noteq> CHR ''{''" "x \<noteq> CHR ''}''" using Cons.prems(3) letter_not_brace by blast+
    have Lb: "L \<noteq> CHR ''{''" using L letter_not_brace by blast
    show ?thesis
    proof (cases B)
      case Nil
      with Cons.prems(2) b show ?thesis by simp
    next
      case (Cons b1 B1)
      note B = this
      show ?thesis
      proof (cases B1)
        case Nil
        with B e Cons.prems(2) show ?thesis by simp
      next
        case (Cons b2 B2)
        note B1 = this
        show ?thesis
        proof (cases B2)
          case Nil
          with B B1 e show ?thesis by simp
        next
          case (Cons b3 B3)
          note B2 = this
          show ?thesis
          proof (cases B3)
            case Nil
            with B B1 B2 e show ?thesis by simp
          next
            case (Cons b4 B4)
            with B B1 B2 e b L show ?thesis by simp
          qed
        qed
      qed
    qed
  qed
qed

lemma sub_title_creates:
  "has_double (A @ sub_title s) \<Longrightarrow> has_double (A @ s)"
proof (induction s arbitrary: A rule: sub_title.induct)
  case 1
  then show ?case by simp
next
  case (2 c cs)
  show ?case
  proof (cases "match_title (c # cs)")
    case None
    with 2(3) have "has_double ((A @ [c]) @ sub_title cs)" by simp
    from 2(1)[OF None this] show ?thesis by simp
  next
    case (Some p)
    obtain repl len where p: "p = (repl, len)" by (cases p)
    from match_title_shape[OF Some[unfolded p]] obtain g1 x g3 rest where
      sh: "is_letter x" "c # cs = g1 @ CHR ''{'' # CHR ''{'' # x # CHR ''}'' # g3 @ CHR ''}'' # rest"
        "repl = g1 @ CHR ''{'' # x # g3 @ [CHR ''}'']" "len = length g1 + 4 + length g3 + 1"
        "g1 \<noteq> []" "last g1 \<noteq> CHR ''{''"
      by blast
    have "drop len (c # cs) = rest"
    proof -
      let ?m = "g1 @ CHR ''{'' # CHR ''{'' # x # CHR ''}'' # g3 @ [CHR ''}'']"
      have "c # cs = ?m @ rest" "len = length ?m" using sh(2,4) by simp_all
      then show ?thesis by (metis append_eq_conv_conj)
    qed
    moreover have "0 < len" using sh(4) by simp
    ultimately have d: "drop (len - 1) cs = rest" by (cases len) simp_all
    from 2(3) Some p d have "has_double ((A @ repl) @ sub_title rest)" by simp
    from 2(2)[OF Some[unfolded p] refl, unfolded d, OF this]
    have "has_double ((A @ g1) @ CHR ''{'' # x # g3 @ CHR ''}'' # rest)"
      by (simp add: sh(3))
    moreover have "A @ g1 = [] \<or> last (A @ g1) \<noteq> CHR ''{''" using sh(5,6) by simp
    ultimately have "has_double ((A @ g1) @ CHR ''{'' # CHR ''{'' # x # CHR ''}'' # g3 @ CHR ''}'' # rest)"
      using sh(1) by (rule insert_braces_double)
    then show ?thesis by (simp add: sh(2))
  qed
qed

lemma clean_creates: "has_single (clean_protected_case t) \<Longrightarrow> has_double t"
  unfolding clean_protected_case_def
  using strip_single_creates sub_title_creates[of "[]"] by fastforce

text \<open>
  Claim C2, as amended. The normalizer is not idempotent on every text: a single letter in
  two pairs of braces loses one pair per application. Applying it a second time changes
  nothing exactly when the first result holds no single letter in braces; texts without
  such a group are the fixed points of the normalizer. One application leaves such a group
  only where the input holds a single letter in two pairs of braces, so on every text
  without that shape the normalizer is idempotent.
\<close>

theorem clean_protected_case_idempotent_iff:
  "(clean_protected_case (clean_protected_case t) = clean_protected_case t
      \<longleftrightarrow> \<not> has_single (clean_protected_case t))
   \<and> (clean_protected_case t = t \<longleftrightarrow> \<not> has_single t)
   \<and> (\<not> has_double t \<longrightarrow>
        clean_protected_case (clean_protected_case t) = clean_protected_case t)"
proof -
  have fixed: "clean_protected_case u = u \<longleftrightarrow> \<not> has_single u" for u
    proof
      assume eq: "clean_protected_case u = u"
      show "\<not> has_single u"
      proof
        assume h: "has_single u"
        have "length (clean_protected_case u) < length u"
        proof (cases "sub_title u = u")
          case True
          then show ?thesis using strip_single_shrinks[OF h] by (simp add: clean_protected_case_def)
        next
          case False
          then have "length (sub_title u) < length u" using sub_title_length by blast
          moreover have "length (strip_single (sub_title u)) \<le> length (sub_title u)"
            by (rule strip_single_length_le)
          ultimately show ?thesis by (simp add: clean_protected_case_def)
        qed
        with eq show False by simp
      qed
    next
      assume "\<not> has_single u"
      then show "clean_protected_case u = u"
        by (simp add: clean_protected_case_def sub_title_fixed strip_single_fixed)
    qed
  show ?thesis using fixed[of t] fixed[of "clean_protected_case t"] clean_creates[of t] by blast
qed

theorem clean_protected_case_idempotent_iff_witness:
  "\<not> has_double ''title = {{A}new {r}esult}, x = {1}''
   \<and> \<not> has_single (clean_protected_case ''title = {{A}new {r}esult}, x = {1}'')
   \<and> clean_protected_case ''title = {{A}new {r}esult}, x = {1}'' = ''title = {Anew result}, x = {1}''
   \<and> clean_protected_case (clean_protected_case ''title = {{A}new {r}esult}, x = {1}'')
       = clean_protected_case ''title = {{A}new {r}esult}, x = {1}''"
proof -
  let ?t = "''title = {{A}new {r}esult}, x = {1}''"
  have v: "clean_protected_case ?t = ''title = {Anew result}, x = {1}''"
    by (simp add: clean_protected_case_def match_title_def is_letter_def is_space_def)
  have n: "\<not> has_single (clean_protected_case ?t)"
    unfolding v by (simp add: is_letter_def)
  have d: "\<not> has_double ?t" by (simp add: is_letter_def)
  from clean_protected_case_idempotent_iff[of ?t] d
  have "clean_protected_case (clean_protected_case ?t) = clean_protected_case ?t" by blast
  with d n v show ?thesis by simp
qed

text \<open>
  The claim as stated fails at the text \<^verbatim>\<open>{{A}}\<close>: the first application gives \<^verbatim>\<open>{A}\<close>, the
  second gives \<^verbatim>\<open>A\<close>.
\<close>

theorem clean_protected_case_not_idempotent:
  "clean_protected_case ''{{A}}'' = ''{A}''
   \<and> clean_protected_case (clean_protected_case ''{{A}}'') = ''A''
   \<and> clean_protected_case (clean_protected_case ''{{A}}'') \<noteq> clean_protected_case ''{{A}}''"
  by (simp add: clean_protected_case_def match_title_def is_letter_def)

section \<open>Properties of the resilient fetcher\<close>

lemma http_get_loop_total:
  "prev = None \<or> (\<exists>r. prev = Some r \<and> status_code r = 429) \<Longrightarrow>
   (\<exists>e. fst (http_get_loop net rq as prev w) = Inl e) \<or>
   (\<exists>resp. fst (http_get_loop net rq as prev w) = Inr (Some resp) \<and> status_code resp \<noteq> 429
            \<and> \<not> is_error_status (status_code resp))"
proof (induction as arbitrary: prev w)
  case Nil
  then show ?case by (auto simp: is_error_status_def)
next
  case (Cons a as)
  obtain rp w1 where g: "requests_get net rq w = (rp, w1)" by (cases "requests_get net rq w")
  show ?case
  proof (cases rp)
    case Transport_failure
    with g show ?thesis by simp
  next
    case (Reply resp)
    show ?thesis
    proof (cases "status_code resp = 429")
      case True
      have "\<exists>r. Some resp = Some r \<and> status_code r = 429" using True by simp
      then show ?thesis
        using Cons.IH[of "Some resp"] g Reply True by (simp add: Let_def)
    next
      case False
      with g Reply show ?thesis by simp
    qed
  qed
qed

lemma attempts: "[1 ..< MAX_RETRIES + 1] = [1, 2, 3]"
  by (simp add: MAX_RETRIES_def upt_rec)

lemma http_get_unroll: "http_get net rq w = http_get_loop net rq [1, 2, 3] None w"
  unfolding http_get_def attempts by (rule refl)

text \<open>
  Claim C7. \<^verbatim>\<open>http_get\<close> makes at most three attempts and makes a further attempt only
  after a response with status 429, sleeping \<open>BACKOFF_FACTOR * 2 ^ (attempt - 1)\<close> seconds
  before it. The first reply that is not a 429 decides the call at once: an error status
  (or a transport failure) is raised without another request, any other response is
  returned. After three 429 responses the failure of the third one is raised. The four
  cases are told apart by the replies to the calls number \<open>clock w\<close>, \<open>clock w + 1\<close> and
  \<open>clock w + 2\<close>.
\<close>

theorem http_get_retry_policy:
  "(\<not> is_429 (net (clock w) rq) \<longrightarrow>
      http_get net rq w = (outcome (net (clock w) rq), emit [Get rq] (w\<lparr>clock := clock w + 1\<rparr>)))
   \<and> (is_429 (net (clock w) rq) \<and> \<not> is_429 (net (clock w + 1) rq) \<longrightarrow>
      http_get net rq w =
        (outcome (net (clock w + 1) rq),
         emit (retry_events rq 1 @ [Get rq]) (w\<lparr>clock := clock w + 2\<rparr>)))
   \<and> (is_429 (net (clock w) rq) \<and> is_429 (net (clock w + 1) rq) \<and> \<not> is_429 (net (clock w + 2) rq) \<longrightarrow>
      http_get net rq w =
        (outcome (net (clock w + 2) rq),
         emit (retry_events rq 1 @ retry_events rq 2 @ [Get rq]) (w\<lparr>clock := clock w + 3\<rparr>)))
   \<and> (is_429 (net (clock w) rq) \<and> is_429 (net (clock w + 1) rq) \<and> is_429 (net (clock w + 2) rq) \<longrightarrow>
      (\<exists>resp. net (clock w + 2) rq = Reply resp \<and>
         http_get net rq w =
           (Inl (HTTPError resp),
            emit (retry_events rq 1 @ retry_events rq 2 @ retry_events rq 3)
              (w\<lparr>clock := clock w + 3\<rparr>))))"
  unfolding http_get_def attempts
  by (auto simp: is_429_def outcome_def retry_events_def requests_get_def emit_def
      is_error_status_def Let_def split: reply.splits)

theorem http_get_retry_policy_witness:
  "http_get (\<lambda>n rq. Reply \<lparr>status_code = 500, body = '''', json_items = None\<rparr>)
      \<lparr>url = ''u'', params = [], headers = []\<rparr> \<lparr>clock = 0, log = [], used_dois = {}\<rparr>
     = (Inl (HTTPError \<lparr>status_code = 500, body = '''', json_items = None\<rparr>),
        \<lparr>clock = 1, log = [Get \<lparr>url = ''u'', params = [], headers = []\<rparr>], used_dois = {}\<rparr>)
   \<and> http_get (\<lambda>n rq. Reply \<lparr>status_code = if n < 1 then 429 else 404, body = '''', json_items = None\<rparr>)
      \<lparr>url = ''u'', params = [], headers = []\<rparr> \<lparr>clock = 0, log = [], used_dois = {}\<rparr>
     = (Inl (HTTPError \<lparr>status_code = 404, body = '''', json_items = None\<rparr>),
        \<lparr>clock = 2,
         log = [Get \<lparr>url = ''u'', params = [], headers = []\<rparr>, Print (Rate_limited ''u'' 1), Sleep 1,
                Get \<lparr>url = ''u'', params = [], headers = []\<rparr>],
         used_dois = {}\<rparr>)
   \<and> http_get (\<lambda>n rq. Reply \<lparr>status_code = if n < 2 then 429 else 200, body = ''ok'', json_items = None\<rparr>)
      \<lparr>url = ''u'', params = [], headers = []\<rparr> \<lparr>clock = 0, log = [], used_dois = {}\<rparr>
     = (Inr (Some \<lparr>status_code = 200, body = ''ok'', json_items = None\<rparr>),
        \<lparr>clock = 3,
         log = [Get \<lparr>url = ''u'', params = [], headers = []\<rparr>, Print (Rate_limited ''u'' 1), Sleep 1,
                Get \<lparr>url = ''u'', params = [], headers = []\<rparr>, Print (Rate_limited ''u'' 2), Sleep 2,
                Get \<lparr>url = ''u'', params = [], headers = []\<rparr>],
         used_dois = {}\<rparr>)
   \<and> http_get (\<lambda>n rq. Reply \<lparr>status_code = 429, body = '''', json_items = None\<rparr>)
      \<lparr>url = ''u'', params = [], headers = []\<rparr> \<lparr>clock = 0, log = [], used_dois = {}\<rparr>
     = (Inl (HTTPError \<lparr>status_code = 429, body = '''', json_items = None\<rparr>),
        \<lparr>clock = 3,
         log = [Get \<lparr>url = ''u'', params = [], headers = []\<rparr>, Print (Rate_limited ''u'' 1), Sleep 1,
                Get \<lparr>url = ''u'', params = [], headers = []\<rparr>, Print (Rate_limited ''u'' 2), Sleep 2,
                Get \<lparr>url = ''u'', params = [], headers = []\<rparr>, Print (Rate_limited ''u'' 4), Sleep 4],
         used_dois = {}\<rparr>)"
proof -
  let ?rq = "\<lparr>url = ''u'', params = [], headers = []\<rparr>"
  let ?w = "\<lparr>clock = 0, log = [], used_dois = {}\<rparr>"
  note defs = is_429_def outcome_def retry_events_def emit_def is_error_status_def
    BACKOFF_FACTOR_def
  show ?thesis
    using
      http_get_retry_policy[of "\<lambda>n rq. Reply \<lparr>status_code = 500, body = '''', json_items = None\<rparr>" ?w ?rq]
      http_get_retry_policy[of "\<lambda>n rq. Reply \<lparr>status_code = if n < 1 then 429 else 404, body = '''', json_items = None\<rparr>" ?w ?rq]
      http_get_retry_policy[of "\<lambda>n rq. Reply \<lparr>status_code = if n < 2 then 429 else 200, body = ''ok'', json_items = None\<rparr>" ?w ?rq]
      http_get_retry_policy[of "\<lambda>n rq. Reply \<lparr>status_code = 429, body = '''', json_items = None\<rparr>" ?w ?rq]
    by (simp add: defs)
qed

text \<open>
  Claim C10. For every behaviour of the network \<^verbatim>\<open>http_get\<close> comes back (the model is a
  total function, by recursion over the attempts that are left) and it either raises or
  returns a response whose status is neither 429 nor an error status (400 to 599, what
  \<^verbatim>\<open>raise_for_status\<close> rejects); it never returns \<^verbatim>\<open>None\<close>.
\<close>

theorem http_get_total:
  "(\<exists>e. fst (http_get net rq w) = Inl e) \<or>
   (\<exists>resp. fst (http_get net rq w) = Inr (Some resp) \<and> status_code resp \<noteq> 429
            \<and> \<not> is_error_status (status_code resp))"
  unfolding http_get_def by (rule http_get_loop_total) simp

theorem http_get_total_witness:
  "fst (http_get (\<lambda>n rq. Reply \<lparr>status_code = 429, body = '''', json_items = None\<rparr>)
         \<lparr>url = ''u'', params = [], headers = []\<rparr> \<lparr>clock = 0, log = [], used_dois = {}\<rparr>)
     \<noteq> Inr None"
  using http_get_total[of "\<lambda>n rq. Reply \<lparr>status_code = 429, body = '''', json_items = None\<rparr>"
      "\<lparr>url = ''u'', params = [], headers = []\<rparr>" "\<lparr>clock = 0, log = [], used_dois = {}\<rparr>"]
  by auto

section \<open>Properties of the metadata search\<close>

lemma space_not_word: "is_space c \<Longrightarrow> \<not> is_word c"
  by (auto simp: is_space_def is_word_def Let_def)

lemma filter_dropWhile_other:
  "(\<And>c. P c \<Longrightarrow> \<not> Q c) \<Longrightarrow> filter Q (dropWhile P s) = filter Q s"
  by (induction s) auto

lemma filter_word_strip: "filter is_word (py_strip s) = filter is_word s"
proof -
  have "filter is_word (py_strip s) = rev (filter is_word (dropWhile is_space (rev (dropWhile is_space s))))"
    by (simp add: py_strip_def rev_filter)
  also have "\<dots> = rev (filter is_word (rev (dropWhile is_space s)))"
    by (simp add: filter_dropWhile_other space_not_word)
  also have "\<dots> = filter is_word (dropWhile is_space s)" by (simp add: rev_filter)
  also have "\<dots> = filter is_word s" by (simp add: filter_dropWhile_other space_not_word)
  finally show ?thesis .
qed

lemma normalize_clean_title: "normalize (clean_title t) = normalize t"
proof -
  have "\<not> is_word backslash" "\<not> is_word CHR ''{''" "\<not> is_word CHR ''}''"
    by (simp_all add: is_word_def backslash_def)
  then have "filter is_word (filter (\<lambda>c. c \<noteq> backslash \<and> c \<noteq> CHR ''{'' \<and> c \<noteq> CHR ''}'') t)
      = filter is_word t"
    by (induction t) auto
  then show ?thesis by (simp add: normalize_def clean_title_def filter_word_strip)
qed

lemma first_exact_Inr:
  "first_exact tc tn items = Inr d \<Longrightarrow>
   \<exists>pre it post c. items = pre @ it # post
     \<and> (\<forall>p \<in> set pre. \<exists>c'. cand_title p = Inr c' \<and> normalize c' \<noteq> tn)
     \<and> cand_title it = Inr c \<and> normalize c = tn \<and> DOI it = Some d"
proof (induction items)
  case Nil
  then show ?case by simp
next
  case (Cons a items)
  from Cons.prems obtain c where c: "cand_title a = Inr c" by (cases "cand_title a") auto
  show ?case
  proof (cases "normalize c = tn")
    case True
    with Cons.prems c have "DOI a = Some d" by (auto split: option.splits)
    with c True show ?thesis by (intro exI[of _ "[]"] exI[of _ a] exI[of _ items] exI[of _ c]) simp
  next
    case False
    with Cons.prems c have "first_exact tc tn items = Inr d" by simp
    from Cons.IH[OF this] obtain pre it post c2 where
      "items = pre @ it # post" "\<forall>p \<in> set pre. \<exists>c'. cand_title p = Inr c' \<and> normalize c' \<noteq> tn"
      "cand_title it = Inr c2" "normalize c2 = tn" "DOI it = Some d" by blast
    with c False show ?thesis
      by (intro exI[of _ "a # pre"] exI[of _ it] exI[of _ post] exI[of _ c2]) simp
  qed
qed

lemma first_exact_first:
  "(\<forall>p \<in> set pre. \<exists>c'. cand_title p = Inr c' \<and> normalize c' \<noteq> tn) \<Longrightarrow>
   cand_title it = Inr c \<Longrightarrow> normalize c = tn \<Longrightarrow> DOI it = Some d \<Longrightarrow>
   first_exact tc tn (pre @ it # post) = Inr d"
  by (induction pre) auto

lemma first_exact_none:
  "(\<forall>it \<in> set items. \<exists>c. cand_title it = Inr c \<and> normalize c \<noteq> tn) \<Longrightarrow>
   first_exact tc tn items = Inl (ValueError (No_exact_match tc))"
  by (induction items) auto

lemma first_exact_no_match_raises:
  "(\<forall>it \<in> set items. \<forall>c. cand_title it = Inr c \<longrightarrow> normalize c \<noteq> tn) \<Longrightarrow>
   \<exists>e. first_exact tc tn items = Inl e"
  by (induction items) (auto split: sum.splits)

section \<open>Properties of the span reassembler\<close>

lemma reassembled_append_text:
  "\<forall>r \<in> set bs. r_start r \<le> length u \<and> r_end r \<le> length u \<Longrightarrow> p \<le> length u \<Longrightarrow>
   reassembled p (u @ y) bs = reassembled p u bs @ y"
  by (induction bs arbitrary: p) auto

lemma reassembled_snoc:
  "\<forall>b \<in> set bs. r_start b \<le> r_start r \<Longrightarrow>
   reassembled p raw (bs @ [r]) =
     reassembled p (take (r_start r) raw) bs @ r_text r @ drop (r_end r) raw"
proof (induction bs arbitrary: p)
  case Nil
  show ?case by (simp add: drop_take)
next
  case (Cons b bs)
  have "take (r_start b - p) (drop p (take (r_start r) raw)) = take (r_start b - p) (drop p raw)"
  proof -
    have "r_start b - p \<le> r_start r - p" using Cons.prems by (simp add: diff_le_mono)
    then show ?thesis by (simp add: drop_take min_absorb1)
  qed
  with Cons show ?case by simp
qed

lemma foldl_splice_rev:
  "ascending rs \<Longrightarrow> \<forall>r \<in> set rs. r_start r \<le> r_end r \<and> r_end r \<le> length raw \<Longrightarrow>
   foldl splice raw (rev rs) = reassembled 0 raw rs"
proof (induction rs arbitrary: raw rule: rev_induct)
  case Nil
  show ?case by simp
next
  case (snoc r bs)
  have asc: "ascending bs" and le: "\<forall>b \<in> set bs. r_end b \<le> r_start r"
    using snoc.prems(1) by (auto simp: ascending_def sorted_wrt_append)
  have r: "r_start r \<le> r_end r" "r_end r \<le> length raw" using snoc.prems(2) by auto
  let ?u = "take (r_start r) raw"
  have len: "length ?u = r_start r" using r by simp
  have inb: "\<forall>b \<in> set bs. r_start b \<le> r_end b \<and> r_end b \<le> length (splice raw r)"
    using snoc.prems(2) le r by (auto simp: splice_def)
  have "foldl splice raw (rev (bs @ [r])) = foldl splice (splice raw r) (rev bs)" by simp
  also have "\<dots> = reassembled 0 (splice raw r) bs" using snoc.IH[OF asc inb] .
  also have "\<dots> = reassembled 0 ?u bs @ r_text r @ drop (r_end r) raw"
    unfolding splice_def
    by (rule reassembled_append_text) (use le snoc.prems(2) len in force)+
  also have "\<dots> = reassembled 0 raw (bs @ [r])"
    by (rule reassembled_snoc[symmetric]) (use le snoc.prems(2) in force)
  finally show ?case .
qed

lemma spans_ok_Cons:
  "spans_ok raw (a # rs) \<Longrightarrow> spans_ok raw rs"
  by (simp add: spans_ok_def)

lemma spans_ok_head_apart:
  assumes "spans_ok raw (a # rs)" "q \<in> set rs"
  shows "r_start a \<noteq> r_start q" "r_start a < r_start q \<Longrightarrow> r_end a \<le> r_start q"
    "r_start q < r_start a \<Longrightarrow> r_end q \<le> r_start a"
proof -
  have "apart a q" "r_start a < r_end a" "r_start q < r_end q"
    using assms by (auto simp: spans_ok_def)
  then show "r_start a \<noteq> r_start q" "r_start a < r_start q \<Longrightarrow> r_end a \<le> r_start q"
    "r_start q < r_start a \<Longrightarrow> r_end q \<le> r_start a"
    by (auto simp: apart_def)
qed

lemma spans_ok_distinct_starts:
  "spans_ok raw rs \<Longrightarrow> distinct (map r_start rs)"
proof (induction rs)
  case Nil show ?case by simp
next
  case (Cons a rs)
  have "r_start a \<notin> r_start ` set rs"
    using spans_ok_head_apart(1)[OF Cons.prems] by auto
  with Cons.IH[OF spans_ok_Cons[OF Cons.prems]] show ?case by simp
qed

lemma spans_ok_apart:
  "spans_ok raw rs \<Longrightarrow> a \<in> set rs \<Longrightarrow> b \<in> set rs \<Longrightarrow> r_start a < r_start b \<Longrightarrow>
   r_end a \<le> r_start b"
proof (induction rs)
  case Nil then show ?case by simp
next
  case (Cons x xs)
  show ?case
  proof (cases "a = x")
    case True
    with Cons.prems have "b \<in> set xs" by auto
    then show ?thesis using spans_ok_head_apart(2)[OF Cons.prems(1)] Cons.prems(4) True by simp
  next
    case False
    note ax = this
    show ?thesis
    proof (cases "b = x")
      case True
      with Cons.prems ax have "a \<in> set xs" by auto
      then show ?thesis using spans_ok_head_apart(3)[OF Cons.prems(1)] Cons.prems(4) True by simp
    next
      case False
      with ax Cons.prems have "a \<in> set xs" "b \<in> set xs" by auto
      then show ?thesis using Cons.IH[OF spans_ok_Cons[OF Cons.prems(1)]] Cons.prems(4) by simp
    qed
  qed
qed

lemma spans_ok_sort_ascending:
  assumes "spans_ok raw rs"
  shows "ascending (sort_key r_start rs)"
proof -
  let ?as = "sort_key r_start rs"
  have d: "distinct (map r_start ?as)"
    using spans_ok_distinct_starts[OF assms] by (simp add: distinct_map)
  have s: "sorted (map r_start ?as)" by simp
  have "r_end (?as ! i) \<le> r_start (?as ! j)" if ij: "i < j" "j < length ?as" for i j
  proof -
    have i: "i < length ?as" using ij by simp
    have "map r_start ?as ! i \<le> map r_start ?as ! j"
      using s ij by (intro sorted_nth_mono) simp_all
    moreover have "map r_start ?as ! i \<noteq> map r_start ?as ! j"
    proof -
      have "i < length (map r_start ?as)" "j < length (map r_start ?as)" "i \<noteq> j"
        using ij i by simp_all
      with d show ?thesis unfolding distinct_conv_nth by blast
    qed
    ultimately have lt: "r_start (?as ! i) < r_start (?as ! j)" using ij i by simp
    have "?as ! i \<in> set ?as" "?as ! j \<in> set ?as"
      using ij i by (simp_all del: set_sort)
    then have "?as ! i \<in> set rs" "?as ! j \<in> set rs" by simp_all
    then show ?thesis using spans_ok_apart[OF assms _ _ lt] by simp
  qed
  then show ?thesis unfolding ascending_def by (simp add: sorted_wrt_iff_nth_less)
qed

lemma sorted_desc_rev_sort:
  assumes "spans_ok raw rs"
  shows "sorted_desc rs = rev (sort_key r_start rs)"
proof -
  have "inj_on r_start (set (rev rs))"
    using spans_ok_distinct_starts[OF assms] by (simp add: distinct_map)
  then have "sort_key r_start (rev rs) = sort_key r_start rs"
    by (intro sort_key_inj_key_eq) simp_all
  then show ?thesis by (simp add: sorted_desc_def)
qed

section \<open>The guard along the log\<close>

lemma quiet_append: "quiet (a @ b) = (quiet a \<and> quiet b)"
  by (induction a rule: quiet.induct) auto

lemma quiet_used_after: "quiet es \<Longrightarrow> used_after U es = U"
  by (induction es rule: quiet.induct) auto

lemma quiet_pending_after: "quiet es \<Longrightarrow> pending_after p es = p"
  by (induction es rule: quiet.induct) auto

lemma quiet_guarded: "quiet es \<Longrightarrow> guarded U p es"
  by (induction es rule: quiet.induct) auto


lemma used_after_append: "used_after U (a @ b) = used_after (used_after U a) b"
  by (induction U a rule: used_after.induct) auto

lemma pending_after_append: "pending_after p (a @ b) = pending_after (pending_after p a) b"
  by (induction p a rule: pending_after.induct) auto

lemma guarded_append:
  "guarded U p (a @ b) = (guarded U p a \<and> guarded (used_after U a) (pending_after p a) b)"
  by (induction U p a rule: guarded.induct) auto


lemma used_after_mono: "U \<subseteq> used_after U es"
  by (induction U es rule: used_after.induct) auto


lemma follows_refl: "follows w w"
  unfolding follows_def by (rule exI[of _ "[]"]) simp

lemma follows_trans:
  assumes "follows w1 w2" "follows w2 w3"
  shows "follows w1 w3"
proof -
  from assms(1) obtain a where a: "log w2 = log w1 @ a"
    "used_dois w2 = used_after (used_dois w1) a" "\<And>p. guarded (used_dois w1) p a"
    unfolding follows_def by blast
  from assms(2) obtain b where b: "log w3 = log w2 @ b"
    "used_dois w3 = used_after (used_dois w2) b" "\<And>p. guarded (used_dois w2) p b"
    unfolding follows_def by blast
  show ?thesis
    unfolding follows_def
  proof (intro exI[of _ "a @ b"] conjI allI)
    show "log w3 = log w1 @ a @ b" by (simp add: a b)
    show "used_dois w3 = used_after (used_dois w1) (a @ b)" by (simp add: a b used_after_append)
    show "guarded (used_dois w1) p (a @ b)" for p
      using a(3)[of p] b(3)[of "pending_after p a"] by (simp add: guarded_append a(2))
  qed
qed

lemma follows_quiet:
  "log w' = log w @ es \<Longrightarrow> quiet es \<Longrightarrow> used_dois w' = used_dois w \<Longrightarrow> follows w w'"
  unfolding follows_def by (rule exI[of _ es]) (simp add: quiet_used_after quiet_guarded)

lemma http_get_loop_quiet:
  "http_get_loop net rq as prev w = (r, w') \<Longrightarrow>
   \<exists>es. log w' = log w @ es \<and> quiet es \<and> used_dois w' = used_dois w"
proof (induction as arbitrary: prev w)
  case Nil
  then show ?case by (auto split: option.splits if_splits)
next
  case (Cons a as)
  show ?case
  proof (cases "net (clock w) rq")
    case Transport_failure
    with Cons.prems show ?thesis by (auto simp: requests_get_def emit_def)
  next
    case (Reply resp)
    show ?thesis
    proof (cases "status_code resp = 429")
      case False
      with Reply Cons.prems show ?thesis
        by (auto simp: requests_get_def emit_def split: if_splits)
    next
      case True
      let ?w1 = "emit [Print (Rate_limited (url rq) (BACKOFF_FACTOR * 2 ^ (a - 1))),
                       Sleep (BACKOFF_FACTOR * 2 ^ (a - 1))]
                   (emit [Get rq] (w\<lparr>clock := clock w + 1\<rparr>))"
      from Cons.prems Reply True have "http_get_loop net rq as (Some resp) ?w1 = (r, w')"
        by (simp add: requests_get_def Let_def)
      from Cons.IH[OF this] obtain es where
        "log w' = log ?w1 @ es" "quiet es" "used_dois w' = used_dois ?w1" by blast
      then show ?thesis
        by (intro exI[of _ "[Get rq, Print (Rate_limited (url rq) (BACKOFF_FACTOR * 2 ^ (a - 1))),
              Sleep (BACKOFF_FACTOR * 2 ^ (a - 1))] @ es"]) (simp add: emit_def)
    qed
  qed
qed

lemma http_get_quiet:
  "http_get net rq w = (r, w') \<Longrightarrow>
   \<exists>es. log w' = log w @ es \<and> quiet es \<and> used_dois w' = used_dois w"
  unfolding http_get_def by (rule http_get_loop_quiet)

lemma text_of_http_get_quiet:
  assumes "text_of (http_get net rq w) = (r, w')"
  shows "\<exists>es. log w' = log w @ es \<and> quiet es \<and> used_dois w' = used_dois w"
proof -
  obtain r0 w0 where h: "http_get net rq w = (r0, w0)" by (cases "http_get net rq w")
  with assms have "w0 = w'" by (auto simp: text_of_def split: sum.splits option.splits)
  with http_get_quiet[OF h] show ?thesis by simp
qed

lemma fetch_bibtex_from_doi_log:
  assumes "fetch_bibtex_from_doi net d w = (r, w')"
  shows "\<exists>es. log w' = log w @ Fetch d # es \<and> quiet es \<and> used_dois w' = used_dois w"
proof -
  let ?rq1 = "\<lparr>url = DOI2BIB_URL @ d, params = [], headers = []\<rparr>"
  let ?rq2 = "\<lparr>url = CROSSREF_API_WORKS @ ''/'' @ d @ ''/transform/application/x-bibtex'',
                      params = [], headers = [(''Accept'', ''application/x-bibtex'')]\<rparr>"
  obtain r1 w1 where h1: "text_of (http_get net ?rq1 (emit [Fetch d] w)) = (r1, w1)"
    by (cases "text_of (http_get net ?rq1 (emit [Fetch d] w))")
  from text_of_http_get_quiet[OF h1] obtain es1 where
    e1: "log w1 = log w @ Fetch d # es1" "quiet es1" "used_dois w1 = used_dois w"
    by (auto simp: emit_def)
  obtain r2 w2 where h2: "text_of (http_get net ?rq2 (emit [Print (Primary_miss d)] w1)) = (r2, w2)"
    by (cases "text_of (http_get net ?rq2 (emit [Print (Primary_miss d)] w1))")
  from text_of_http_get_quiet[OF h2] obtain es2 where
    e2: "log w2 = log w1 @ Print (Primary_miss d) # es2" "quiet es2" "used_dois w2 = used_dois w1"
    by (auto simp: emit_def)
  have two: "log w2 = log w @ Fetch d # (es1 @ Print (Primary_miss d) # es2)"
    "quiet (es1 @ Print (Primary_miss d) # es2)" "used_dois w2 = used_dois w"
    using e1 e2 by (simp_all add: quiet_append)
  from assms h1 h2 have "w' = w1 \<or> w' = w2"
    by (auto simp: fetch_bibtex_from_doi_def split: sum.splits exn.splits if_splits)
  then show ?thesis using e1 two by blast
qed


lemma search_doi_by_metadata_quiet:
  assumes "search_doi_by_metadata net ttl author w = (r, w')"
  shows "\<exists>es. log w' = log w @ es \<and> quiet es \<and> used_dois w' = used_dois w"
proof -
  obtain r0 w0 where h: "http_get net (search_request (clean_title ttl) author) w = (r0, w0)"
    by (cases "http_get net (search_request (clean_title ttl) author) w")
  with assms have "w0 = w'"
    by (auto simp: search_doi_by_metadata_def split: sum.splits option.splits)
  with http_get_quiet[OF h] show ?thesis by simp
qed

lemma extract_arxiv_doi_quiet:
  assumes "extract_arxiv_doi net aid w = (r, w')"
  shows "\<exists>es. log w' = log w @ es \<and> quiet es \<and> used_dois w' = used_dois w"
proof -
  obtain r0 w0 where h: "http_get net \<lparr>url = ARXIV_ABS_URL @ aid, params = [], headers = []\<rparr> w = (r0, w0)"
    by (cases "http_get net \<lparr>url = ARXIV_ABS_URL @ aid, params = [], headers = []\<rparr> w")
  with assms have "w0 = w'"
    by (auto simp: extract_arxiv_doi_def split: sum.splits option.splits)
  with http_get_quiet[OF h] show ?thesis by simp
qed

lemma follows_emit_print: "follows w (emit [Print m] w)"
  by (rule follows_quiet[of _ _ "[Print m]"]) (simp_all add: emit_def)

lemma fetch_follows:
  assumes "fetch_bibtex_from_doi net d w = (r, w1)" "d \<notin> used_dois w"
  shows "follows w w1" "follows w (claim d w1)"
proof -
  from fetch_bibtex_from_doi_log[OF assms(1)] obtain es where
    es: "log w1 = log w @ Fetch d # es" "quiet es" "used_dois w1 = used_dois w" by blast
  show "follows w w1"
    unfolding follows_def
    by (rule exI[of _ "Fetch d # es"]) (simp add: es assms(2) quiet_used_after quiet_guarded)
  show "follows w (claim d w1)"
    unfolding follows_def
    by (rule exI[of _ "Fetch d # es @ [Claim d]"])
      (simp add: es assms(2) claim_def emit_def used_after_append guarded_append
        quiet_used_after quiet_guarded quiet_pending_after)
qed

lemma branch_arxiv_follows:
  assumes "branch_arxiv env doi urlf repl w = (repl', w')"
  shows "follows w w'"
proof (cases "repl = None \<and> \<not> truthy doi \<and> contains ''arxiv.org/abs'' urlf")
  case False
  with assms have "w' = w" by (auto simp: branch_arxiv_def)
  then show ?thesis by (simp add: follows_refl)
next
  case True
  let ?aid = "split_last ''/'' [] (py_rstrip ''/'' urlf)"
  obtain r1 w1 where x: "extract_arxiv_doi (network env) ?aid w = (r1, w1)"
    by (cases "extract_arxiv_doi (network env) ?aid w")
  from extract_arxiv_doi_quiet[OF x] have f1: "follows w w1" by (auto intro: follows_quiet)
  show ?thesis
  proof (cases r1)
    case (Inl e)
    with assms True x have "w' = w1" by (simp add: branch_arxiv_def)
    with f1 show ?thesis by simp
  next
    case (Inr d)
    show ?thesis
    proof (cases "d \<in> used_dois w1")
      case True
      with assms \<open>repl = None \<and> \<not> truthy doi \<and> contains ''arxiv.org/abs'' urlf\<close> x Inr
      have "w' = w1" by (simp add: branch_arxiv_def)
      with f1 show ?thesis by simp
    next
      case False
      obtain r2 w2 where f: "fetch_bibtex_from_doi (network env) d w1 = (r2, w2)"
        by (cases "fetch_bibtex_from_doi (network env) d w1")
      from assms True x Inr False f have "w' = w2 \<or> w' = claim d w2"
        by (auto simp: branch_arxiv_def split: sum.splits)
      with fetch_follows[OF f False] f1 show ?thesis by (auto intro: follows_trans)
    qed
  qed
qed

lemma branch_metadata_follows:
  assumes "branch_metadata env key ent doi repl w = (repl', w')"
  shows "follows w w'"
proof (cases "repl = None \<and> \<not> truthy doi")
  case False
  with assms have "w' = w" by (auto simp: branch_metadata_def)
  then show ?thesis by (simp add: follows_refl)
next
  case True
  let ?t = "get_or_empty ent ''title''" and ?a = "get_or_empty ent ''author''"
  obtain r1 w1 where x: "search_doi_by_metadata (network env) ?t ?a w = (r1, w1)"
    by (cases "search_doi_by_metadata (network env) ?t ?a w")
  from search_doi_by_metadata_quiet[OF x] have f1: "follows w w1" by (auto intro: follows_quiet)
  show ?thesis
  proof (cases r1)
    case (Inl e)
    with assms True x have "w' = emit [Print (Metadata_failed key e)] w1"
      by (simp add: branch_metadata_def)
    with f1 show ?thesis by (auto intro: follows_trans follows_emit_print)
  next
    case (Inr d)
    show ?thesis
    proof (cases "d \<in> used_dois w1")
      case True
      with assms \<open>repl = None \<and> \<not> truthy doi\<close> x Inr
      have "w' = emit [Print (Skipping_duplicate d key)] w1" by (simp add: branch_metadata_def)
      with f1 show ?thesis by (auto intro: follows_trans follows_emit_print)
    next
      case False
      obtain r2 w2 where f: "fetch_bibtex_from_doi (network env) d w1 = (r2, w2)"
        by (cases "fetch_bibtex_from_doi (network env) d w1")
      from assms True x Inr False f
      have "(\<exists>e. w' = emit [Print (Metadata_failed key e)] w2) \<or> w' = claim d w2"
        by (auto simp: branch_metadata_def split: sum.splits)
      with fetch_follows[OF f False] f1 show ?thesis
        by (auto intro: follows_trans follows_emit_print)
    qed
  qed
qed

lemma branch_direct_follows:
  assumes "branch_direct env doi repl w = (r, w')"
  shows "follows w w'"
proof (cases "\<exists>d. doi = Some d \<and> repl = None \<and> d \<noteq> [] \<and> d \<notin> used_dois w")
  case False
  with assms have "w' = w" by (auto simp: branch_direct_def split: option.splits if_splits)
  then show ?thesis by (simp add: follows_refl)
next
  case True
  then obtain d where d: "doi = Some d" "repl = None" "d \<noteq> []" "d \<notin> used_dois w" by blast
  obtain r2 w2 where f: "fetch_bibtex_from_doi (network env) d w = (r2, w2)"
    by (cases "fetch_bibtex_from_doi (network env) d w")
  from assms d f have "w' = w2 \<or> w' = claim d w2"
    by (auto simp: branch_direct_def split: sum.splits)
  with fetch_follows[OF f d(4)] show ?thesis by auto
qed

lemma process_entry_follows:
  assumes "process_entry env key ent w = (r, w')"
  shows "follows w w'"
proof -
  let ?doi = "field ent ''doi''" and ?urlf = "py_strip (get_or_empty ent ''url'')"
  let ?r1 = "branch_url_only env key ent ?doi ?urlf"
  obtain r2 w2 where b2: "branch_arxiv env ?doi ?urlf ?r1 w = (r2, w2)"
    by (cases "branch_arxiv env ?doi ?urlf ?r1 w")
  obtain r3 w3 where b3: "branch_metadata env key ent ?doi r2 w2 = (r3, w3)"
    by (cases "branch_metadata env key ent ?doi r2 w2")
  obtain r4 w4 where b4: "branch_direct env ?doi r3 w3 = (r4, w4)"
    by (cases "branch_direct env ?doi r3 w3")
  from assms b2 b3 b4 have "w' = w4"
    by (auto simp: process_entry_def Let_def split: sum.splits)
  with branch_arxiv_follows[OF b2] branch_metadata_follows[OF b3] branch_direct_follows[OF b4]
  show ?thesis by (auto intro: follows_trans)
qed

lemma process_raw_follows:
  assumes "process_raw env block w = (r, w')"
  shows "follows w w'"
proof (cases "\<exists>d. raw_doi block = Some d \<and> d \<noteq> [] \<and> d \<notin> used_dois w")
  case False
  with assms have "w' = w" by (auto simp: process_raw_def split: option.splits if_splits)
  then show ?thesis by (simp add: follows_refl)
next
  case True
  then obtain d where d: "raw_doi block = Some d" "d \<noteq> []" "d \<notin> used_dois w" by blast
  obtain r2 w2 where f: "fetch_bibtex_from_doi (network env) d w = (r2, w2)"
    by (cases "fetch_bibtex_from_doi (network env) d w")
  from assms d f have "w' = w2 \<or> w' = claim d w2"
    by (auto simp: process_raw_def split: sum.splits)
  with fetch_follows[OF f d(3)] show ?thesis by auto
qed

lemma process_match_follows:
  assumes "process_match env structured m w = (r, w')"
  shows "follows w w'"
proof (cases "structured (m_key m)")
  case None
  obtain t w1 where p: "process_raw env (m_block m) w = (t, w1)"
    by (cases "process_raw env (m_block m) w")
  with assms None have "w' = w1" by (simp add: process_match_def)
  with process_raw_follows[OF p] show ?thesis by simp
next
  case (Some ent)
  obtain t w1 where p: "process_entry env (m_key m) ent w = (t, w1)"
    by (cases "process_entry env (m_key m) ent w")
  with assms Some have "w' = w1" by (auto simp: process_match_def split: sum.splits)
  with process_entry_follows[OF p] show ?thesis by simp
qed

lemma process_matches_follows:
  "process_matches env structured ms rs w = (r, w') \<Longrightarrow> follows w w'"
proof (induction ms arbitrary: rs w)
  case Nil
  then show ?case by (simp add: follows_refl)
next
  case (Cons m ms)
  obtain r1 w1 where p: "process_match env structured m w = (r1, w1)"
    by (cases "process_match env structured m w")
  show ?case
  proof (cases r1)
    case (Inl e)
    with Cons.prems p have "w' = w1" by simp
    with process_match_follows[OF p] show ?thesis by simp
  next
    case (Inr x)
    with Cons.prems p have "process_matches env structured ms (rs @ [x]) w1 = (r, w')" by simp
    from Cons.IH[OF this] process_match_follows[OF p] show ?thesis by (rule follows_trans[rotated])
  qed
qed

lemma process_bib_file_follows:
  assumes "process_bib_file env raw_text entries w = (r, w')"
  shows "follows w w'"
proof -
  obtain r1 w1 where p: "process_matches env (structured_of entries) (finditer 0 raw_text) [] w = (r1, w1)"
    by (cases "process_matches env (structured_of entries) (finditer 0 raw_text) [] w")
  with assms have "w' = w1 \<or> w' = emit [Print Finished] w1"
    by (auto simp: process_bib_file_def split: sum.splits)
  with process_matches_follows[OF p] show ?thesis
    by (auto intro: follows_trans follows_emit_print)
qed

section \<open>The boundary scan and the dictionary of entries\<close>

lemma fold_update_other:
  "\<forall>x \<in> set post. ID x \<noteq> k \<Longrightarrow> fold (\<lambda>e m. m(ID e \<mapsto> e)) post m0 k = m0 k"
  by (induction post arbitrary: m0) auto

lemma structured_of_last_wins:
  "\<forall>x \<in> set post. ID x \<noteq> ID e \<Longrightarrow> structured_of (pre @ e # post) (ID e) = Some e"
  by (simp add: structured_of_def fold_update_other)

lemma body_length_le: "body_length prev s \<le> length s"
  by (induction prev s rule: body_length.induct) auto

lemma match_entry_len:
  assumes "match_entry s = Some (key, len)"
  shows "0 < len \<and> len \<le> length s"
proof -
  from assms obtain a r b r1 comma r2 where
    s: "s = a # r" and r: "dropWhile is_word r = b # r1"
    and r1: "dropWhile (\<lambda>c. c \<noteq> CHR '','') r1 = comma # r2"
    and len: "len = 1 + length (takeWhile is_word r) + 1
                + length (takeWhile (\<lambda>c. c \<noteq> CHR '','') r1) + 1 + body_length comma r2"
    by (auto simp: match_entry_def Let_def split: list.splits if_splits)
  have "length r = length (takeWhile is_word r) + length (dropWhile is_word r)"
    by (metis append_eq_conv_conj length_append takeWhile_dropWhile_id)
  moreover have "length r1 = length (takeWhile (\<lambda>c. c \<noteq> CHR '','') r1)
      + length (dropWhile (\<lambda>c. c \<noteq> CHR '','') r1)"
    by (metis append_eq_conv_conj length_append takeWhile_dropWhile_id)
  ultimately have "length s = 1 + length (takeWhile is_word r) + 1
                + length (takeWhile (\<lambda>c. c \<noteq> CHR '','') r1) + 1 + length r2"
    using s r r1 by simp
  with len body_length_le[of comma r2] show ?thesis by simp
qed

lemma finditer_spans:
  "(\<forall>m \<in> set (finditer pos s). pos \<le> m_start m \<and> m_start m < m_end m \<and> m_end m \<le> pos + length s)
   \<and> sorted_wrt (\<lambda>a b. m_end a \<le> m_start b) (finditer pos s)"
proof (induction pos s rule: finditer.induct)
  case (1 pos)
  show ?case by simp
next
  case (2 pos c cs)
  show ?case
  proof (cases "match_entry (c # cs)")
    case None
    with 2(1) show ?thesis by auto
  next
    case (Some p)
    obtain key len where p: "p = (key, len)" by (cases p)
    from match_entry_len[OF Some[unfolded p]] have len: "0 < len" "len \<le> Suc (length cs)" by simp_all
    have l: "pos + len + length (drop (len - 1) cs) = pos + Suc (length cs)"
      using len by simp
    from 2(2)[OF Some[unfolded p] refl]
    have ih: "\<forall>m \<in> set (finditer (pos + len) (drop (len - 1) cs)).
                pos + len \<le> m_start m \<and> m_start m < m_end m \<and> m_end m \<le> pos + Suc (length cs)"
      "sorted_wrt (\<lambda>a b. m_end a \<le> m_start b) (finditer (pos + len) (drop (len - 1) cs))"
      unfolding l by simp_all
    show ?thesis
      using Some p len ih by auto
  qed
qed

lemma process_match_span:
  "process_match env structured m w = (Inr r, w') \<Longrightarrow> r_start r = m_start m \<and> r_end r = m_end m"
  by (auto simp: process_match_def split: option.splits sum.splits prod.splits)

lemma process_matches_spans:
  "process_matches env structured ms rs0 w = (Inr rs, w') \<Longrightarrow>
   map (\<lambda>r. (r_start r, r_end r)) rs
     = map (\<lambda>r. (r_start r, r_end r)) rs0 @ map (\<lambda>m. (m_start m, m_end m)) ms"
proof (induction ms arbitrary: rs0 w)
  case Nil
  then show ?case by simp
next
  case (Cons m ms)
  obtain r1 w1 where p: "process_match env structured m w = (r1, w1)"
    by (cases "process_match env structured m w")
  show ?case
  proof (cases r1)
    case (Inl e)
    with Cons.prems p show ?thesis by simp
  next
    case (Inr x)
    with Cons.prems p have "process_matches env structured ms (rs0 @ [x]) w1 = (Inr rs, w')" by simp
    from Cons.IH[OF this] process_match_span[OF p[unfolded Inr]] show ?thesis by simp
  qed
qed

lemma spans_ok_of_spans:
  assumes "map (\<lambda>r. (r_start r, r_end r)) rs = map (\<lambda>m. (m_start m, m_end m)) (finditer 0 raw)"
  shows "spans_ok raw rs \<and> ascending rs"
proof -
  let ?sp = "\<lambda>r. (r_start r, r_end r)" and ?ms = "finditer 0 raw"
  have f: "\<forall>m \<in> set ?ms. m_start m < m_end m \<and> m_end m \<le> length raw"
    "sorted_wrt (\<lambda>a b. m_end a \<le> m_start b) ?ms"
    using finditer_spans[of 0 raw] by auto
  have "\<forall>p \<in> set (map ?sp rs). fst p < snd p \<and> snd p \<le> length raw"
    unfolding assms using f(1) by auto
  then have a: "\<forall>r \<in> set rs. r_start r < r_end r \<and> r_end r \<le> length raw" by auto
  have "sorted_wrt (\<lambda>a b. snd a \<le> fst b) (map ?sp rs)"
    unfolding assms using f(2) by (simp add: sorted_wrt_map)
  then have asc: "sorted_wrt (\<lambda>a b. r_end a \<le> r_start b) rs" by (simp add: sorted_wrt_map)
  then have "sorted_wrt apart rs"
    by (rule sorted_wrt_mono_rel[rotated]) (simp add: apart_def)
  with a asc show ?thesis by (simp add: spans_ok_def ascending_def)
qed

lemma process_bib_file_output:
  assumes "process_bib_file env raw entries w = (Inr out, w')"
  shows "\<exists>rs w1. process_matches env (structured_of entries) (finditer 0 raw) [] w = (Inr rs, w1)
           \<and> map (\<lambda>r. (r_start r, r_end r)) rs = map (\<lambda>m. (m_start m, m_end m)) (finditer 0 raw)
           \<and> spans_ok raw rs \<and> ascending rs \<and> out = apply_replacements raw rs"
proof -
  obtain r1 w1 where p: "process_matches env (structured_of entries) (finditer 0 raw) [] w = (r1, w1)"
    by (cases "process_matches env (structured_of entries) (finditer 0 raw) [] w")
  with assms obtain rs where rs: "r1 = Inr rs" "out = apply_replacements raw rs"
    by (auto simp: process_bib_file_def split: sum.splits)
  from process_matches_spans[OF p[unfolded rs(1)]]
  have sp: "map (\<lambda>r. (r_start r, r_end r)) rs = map (\<lambda>m. (m_start m, m_end m)) (finditer 0 raw)"
    by simp
  from spans_ok_of_spans[OF sp] p rs sp show ?thesis by blast
qed

section \<open>Replaying the log of a run\<close>




































section \<open>Evaluating the example runs\<close>

lemmas text_eval = is_letter_def is_space_def is_word_def lower_char_def py_lower_def char_of_def
  bit_0 dquote_def backslash_def newline_def starts_with_def py_strip_def py_rstrip_def

lemmas regex_eval = match_title_def match_href_def match_field_def match_entry_def at_marker_def
  raw_doi_def clean_protected_case_def normalize_def clean_title_def

lemmas net_eval = http_get_unroll requests_get_def emit_def is_error_status_def text_of_def
  BACKOFF_FACTOR_def fetch_bibtex_from_doi_def search_doi_by_metadata_def extract_arxiv_doi_def
  search_request_def select_doi_def cand_title_def DOI2BIB_URL_def CROSSREF_API_WORKS_def
  ARXIV_ABS_URL_def

lemmas pipeline_eval = process_bib_file_def process_match_def process_entry_def process_raw_def
  branch_url_only_def branch_arxiv_def branch_metadata_def branch_direct_def branch_fallback_def
  misc_text_def get_or_empty_def truthy_def claim_def structured_of_def apply_replacements_def
  sorted_desc_def splice_def

lemmas example_eval = served_def page_def failing_def candidates_def example_writer_def
  example_env_def start_def arxiv_entry_def arxiv_page_def arxiv_net_def twin_text_def
  twin_entries_def down_net_def up_net_def same_doi_text_def same_doi_entries_def
  same_key_text_def same_key_entries_def doi_net_def scenario_text_def scenario_entries_def
  near_miss_def exact_hit_def later_hit_def case_hit_def untitled_def unidentified_def
  search_net_def

lemmas run_eval = text_eval regex_eval net_eval pipeline_eval example_eval

section \<open>The claims about the pipeline\<close>

text \<open>
  Whatever the abstract page holds, the identifier that \<^verbatim>\<open>extract_arxiv_doi\<close> returns has
  no slash in it: it is the last piece of the link split at the slashes.
\<close>

lemma split_last_no_sep:
  "c \<notin> set cur \<Longrightarrow> c \<notin> set (split_last [c] cur s)"
  by (induction "[c]" cur s rule: split_last.induct) (auto simp: starts_with_def)

lemma extract_arxiv_doi_no_slash:
  "extract_arxiv_doi net aid w = (Inr d, w') \<Longrightarrow> CHR ''/'' \<notin> set d"
  using split_last_no_sep[of "CHR ''/''" "[]"]
  by (auto simp: extract_arxiv_doi_def split: prod.splits sum.splits option.splits)

text \<open>
  Claim C4, on the code. For the record with the link \<^verbatim>\<open>https://arxiv.org/abs/1234.5678\<close> and
  no identifier field, whose abstract page holds \<^verbatim>\<open>href="https://doi.org/10.2/y"\<close>, the
  claim expects the identifier \<^verbatim>\<open>10.2/y\<close>. \<^verbatim>\<open>extract_arxiv_doi\<close> returns \<^verbatim>\<open>y\<close>, the text
  behind the last slash of the link, and the preprint branch fetches the citation of \<^verbatim>\<open>y\<close>:
  the citation of \<^verbatim>\<open>10.2/y\<close>, which the service holds, is never requested, and the record
  ends in the fallback.
\<close>

theorem extract_arxiv_doi_keeps_last_segment:
  "fst (extract_arxiv_doi arxiv_net ''1234.5678'' start) = Inr ''y''
   \<and> fst (process_entry (example_env arxiv_net) ''k'' arxiv_entry start) = Inr (''@entry{k,}'' @ [newline])
   \<and> fetches (log (snd (process_entry (example_env arxiv_net) ''k'' arxiv_entry start))) = [''y'']
   \<and> requested (log (snd (process_entry (example_env arxiv_net) ''k'' arxiv_entry start)))
       = [''https://arxiv.org/abs/1234.5678'', ''https://doi2bib.org/bib/y'',
          ''https://api.crossref.org/works/y/transform/application/x-bibtex'',
          ''https://api.crossref.org/works'']"
  by (simp add: run_eval)

text \<open>
  Claim C5, as amended. Along every run, whatever the network answers and whether or not
  the run ends in an exception, \<^verbatim>\<open>fetch_bibtex_from_doi\<close> is entered for an identifier only
  while the identifier is not in \<^verbatim>\<open>used_dois\<close>, and an identifier is added to \<^verbatim>\<open>used_dois\<close>
  only behind the fetch made for it, with no other fetch or claim in between; \<^verbatim>\<open>used_dois\<close>
  changes in no other way. The guard is checked before the fetch and claimed after it.
\<close>

theorem fetch_guard_order:
  assumes "process_bib_file env raw_text entries w = (res, w')"
  shows "\<exists>es. log w' = log w @ es \<and> guarded (used_dois w) None es
              \<and> used_dois w' = used_after (used_dois w) es"
  using process_bib_file_follows[OF assms] unfolding follows_def by blast

theorem fetch_guard_order_witness:
  "process_bib_file (example_env up_net) twin_text twin_entries start =
     (Inr (''@article{z,}@entry{b,}'' @ [newline]),
      \<lparr>clock = 3,
       log = [Get (search_request ''T'' []), Fetch ''10.3/z'',
              Get \<lparr>url = ''https://doi2bib.org/bib/10.3/z'', params = [], headers = []\<rparr>,
              Claim ''10.3/z'', Get (search_request ''T'' []),
              Print (Skipping_duplicate ''10.3/z'' ''b''), Print Finished],
       used_dois = {''10.3/z''}\<rparr>)
   \<and> guarded {} None
        [Get (search_request ''T'' []), Fetch ''10.3/z'',
         Get \<lparr>url = ''https://doi2bib.org/bib/10.3/z'', params = [], headers = []\<rparr>,
         Claim ''10.3/z'', Get (search_request ''T'' []),
         Print (Skipping_duplicate ''10.3/z'' ''b''), Print Finished]"
proof -
  have run: "process_bib_file (example_env up_net) twin_text twin_entries start =
     (Inr (''@article{z,}@entry{b,}'' @ [newline]),
      \<lparr>clock = 3,
       log = [Get (search_request ''T'' []), Fetch ''10.3/z'',
              Get \<lparr>url = ''https://doi2bib.org/bib/10.3/z'', params = [], headers = []\<rparr>,
              Claim ''10.3/z'', Get (search_request ''T'' []),
              Print (Skipping_duplicate ''10.3/z'' ''b''), Print Finished],
       used_dois = {''10.3/z''}\<rparr>)"
    by (simp add: run_eval)
  from fetch_guard_order[OF run] show ?thesis using run by (simp add: start_def)
qed

text \<open>
  The claim as stated asks for the identifier to be in \<^verbatim>\<open>used_dois\<close> when its fetch starts.
  In the run on the single record with the identifier \<^verbatim>\<open>10.1/x\<close> the fetch is the first
  event, before the claim.
\<close>

theorem claim_precedes_fetch_counterexample:
  "log (snd (process_bib_file (example_env doi_net) scenario_text scenario_entries start))
     = [Fetch ''10.1/x'', Get \<lparr>url = ''https://doi2bib.org/bib/10.1/x'', params = [], headers = []\<rparr>,
        Claim ''10.1/x'', Print Finished]
   \<and> \<not> claimed_first {}
        (log (snd (process_bib_file (example_env doi_net) scenario_text scenario_entries start)))"
  by (simp add: run_eval)




text \<open>
  Claim C8, as amended. For a parsed record whose identifier field is populated, whatever
  its link field holds, the branches 1, 2 and 3 are never taken. While the identifier is
  not in \<^verbatim>\<open>used_dois\<close> the record is resolved by branch 4: the citation is fetched by the
  identifier and the identifier is claimed, and an exception of that fetch leaves
  \<^verbatim>\<open>process_bib_file\<close>. When the identifier is in \<^verbatim>\<open>used_dois\<close> already, branch 4 leaves no
  replacement and the record is re-rendered by the fallback, branch 5, without any request.
\<close>

theorem identifier_field_precedence:
  assumes "field ent ''doi'' = Some d" and "d \<noteq> []"
  shows "process_entry env key ent w =
           (if d \<in> used_dois w
            then (Inr (clean_protected_case (writer_write env ent)), w)
            else case fetch_bibtex_from_doi (network env) d w of
                   (Inl e, w1) \<Rightarrow> (Inl e, w1)
                 | (Inr txt, w1) \<Rightarrow> (Inr txt, claim d w1))"
  using assms
  by (simp add: process_entry_def branch_url_only_def branch_arxiv_def branch_metadata_def
      branch_direct_def branch_fallback_def truthy_def split: prod.splits sum.splits)

theorem identifier_field_precedence_witness:
  "process_entry (example_env doi_net) ''a''
      \<lparr>ID = ''a'', field = [''doi'' \<mapsto> ''10.1/x'', ''url'' \<mapsto> ''http://e.org/p'']\<rparr> start
     = (Inr ''@article{x,}'',
        \<lparr>clock = 1,
         log = [Fetch ''10.1/x'',
                Get \<lparr>url = ''https://doi2bib.org/bib/10.1/x'', params = [], headers = []\<rparr>,
                Claim ''10.1/x''],
         used_dois = {''10.1/x''}\<rparr>)
   \<and> process_entry (example_env doi_net) ''b''
      \<lparr>ID = ''b'', field = [''doi'' \<mapsto> ''10.1/x'', ''url'' \<mapsto> ''http://e.org/q'']\<rparr>
      \<lparr>clock = 1, log = [], used_dois = {''10.1/x''}\<rparr>
     = (Inr (''@entry{b,}'' @ [newline]), \<lparr>clock = 1, log = [], used_dois = {''10.1/x''}\<rparr>)"
proof -
  let ?a = "\<lparr>ID = ''a'', field = [''doi'' \<mapsto> ''10.1/x'', ''url'' \<mapsto> ''http://e.org/p'']\<rparr>"
  let ?b = "\<lparr>ID = ''b'', field = [''doi'' \<mapsto> ''10.1/x'', ''url'' \<mapsto> ''http://e.org/q'']\<rparr>"
  have a: "field ?a ''doi'' = Some ''10.1/x''" and b: "field ?b ''doi'' = Some ''10.1/x''"
    and n: "''10.1/x'' \<noteq> []" by simp_all
  show ?thesis
    using identifier_field_precedence[OF a n, of "example_env doi_net" "''a''" start]
      identifier_field_precedence[OF b n, of "example_env doi_net" "''b''"
        "\<lparr>clock = 1, log = [], used_dois = {''10.1/x''}\<rparr>"]
    by (simp add: text_eval regex_eval net_eval example_eval claim_def)
qed

text \<open>
  The claim as stated fails for the second of two records that carry the same identifier
  field and a link: it is not resolved by fetching its identifier but by the fallback, and
  the run makes one fetch only.
\<close>

theorem claimed_identifier_counterexample:
  "fst (process_bib_file (example_env doi_net) same_doi_text same_doi_entries start)
     = Inr (''@article{x,}@entry{b,}'' @ [newline])
   \<and> fetches (log (snd (process_bib_file (example_env doi_net) same_doi_text same_doi_entries start)))
     = [''10.1/x'']
   \<and> requested (log (snd (process_bib_file (example_env doi_net) same_doi_text same_doi_entries start)))
     = [''https://doi2bib.org/bib/10.1/x'']"
  by (simp add: run_eval)

text \<open>
  Claim C9, as amended. The program has no treatment of records that share a citation key.
  The dictionary of parsed entries keeps, for a key, the last entry the parsing library
  returned with it; every record with that key is resolved from that entry, like any other
  record, and its span receives the replacement text so produced.
\<close>

theorem same_key_records_use_last_entry:
  "(\<forall>x \<in> set post. ID x \<noteq> ID e) \<longrightarrow>
     structured_of (pre @ e # post) (ID e) = Some e
     \<and> (\<forall>m env w. m_key m = ID e \<longrightarrow>
           process_match env (structured_of (pre @ e # post)) m w =
             (case process_entry env (ID e) e w of
                (Inl x, w1) \<Rightarrow> (Inl x, w1)
              | (Inr repl, w1) \<Rightarrow>
                  (Inr \<lparr>r_start = m_start m, r_end = m_end m, r_text = repl\<rparr>, w1)))"
  by (simp add: structured_of_last_wins process_match_def)

theorem same_key_records_use_last_entry_witness:
  "structured_of same_key_entries ''k'' = Some \<lparr>ID = ''k'', field = [''doi'' \<mapsto> ''10.9/w'']\<rparr>
   \<and> process_match (example_env doi_net) (structured_of same_key_entries)
        \<lparr>m_key = ''k'', m_start = 0, m_end = 26, m_block = ''@article{k, doi={10.1/x}}'' @ [newline]\<rparr>
        start
     = (Inr \<lparr>r_start = 0, r_end = 26, r_text = ''@article{w,}''\<rparr>,
        \<lparr>clock = 1,
         log = [Fetch ''10.9/w'',
                Get \<lparr>url = ''https://doi2bib.org/bib/10.9/w'', params = [], headers = []\<rparr>,
                Claim ''10.9/w''],
         used_dois = {''10.9/w''}\<rparr>)"
proof -
  let ?e1 = "\<lparr>ID = ''k'', field = [''doi'' \<mapsto> ''10.1/x'']\<rparr>"
  let ?e2 = "\<lparr>ID = ''k'', field = [''doi'' \<mapsto> ''10.9/w'']\<rparr>"
  let ?m = "\<lparr>m_key = ''k'', m_start = 0, m_end = 26, m_block = ''@article{k, doi={10.1/x}}'' @ [newline]\<rparr>"
  have es: "same_key_entries = [?e1] @ ?e2 # []" by (simp add: same_key_entries_def)
  have pe: "process_entry (example_env doi_net) (ID ?e2) ?e2 start
     = (Inr ''@article{w,}'',
        \<lparr>clock = 1,
         log = [Fetch ''10.9/w'',
                Get \<lparr>url = ''https://doi2bib.org/bib/10.9/w'', params = [], headers = []\<rparr>,
                Claim ''10.9/w''],
         used_dois = {''10.9/w''}\<rparr>)"
    by (simp add: run_eval)
  have none: "\<forall>x \<in> set ([] :: entry list). ID x \<noteq> ID ?e2" by simp
  from same_key_records_use_last_entry[of "[]" ?e2 "[?e1]"] none
  have A: "structured_of ([?e1] @ ?e2 # []) (ID ?e2) = Some ?e2"
    and B: "\<And>m env w. m_key m = ID ?e2 \<Longrightarrow>
           process_match env (structured_of ([?e1] @ ?e2 # [])) m w =
             (case process_entry env (ID ?e2) ?e2 w of
                (Inl x, w1) \<Rightarrow> (Inl x, w1)
              | (Inr repl, w1) \<Rightarrow>
                  (Inr \<lparr>r_start = m_start m, r_end = m_end m, r_text = repl\<rparr>, w1))"
    by blast+
  have k: "m_key ?m = ID ?e2" by simp
  show ?thesis
    using A B[OF k, of "example_env doi_net" start] unfolding es[symmetric] pe by simp
qed

text \<open>
  The claim as stated fails on two records with the key \<^verbatim>\<open>k\<close>: neither span of the output
  equals its span of the input. The first record is replaced by the citation fetched for
  the identifier of the second one, the second by the fallback rendering. The spans are
  replaced as well when the parsing library returns only one of the two entries.
\<close>

theorem same_key_records_replaced_counterexample:
  "fst (process_bib_file (example_env doi_net) same_key_text same_key_entries start)
     = Inr (''@article{w,}@entry{k,}'' @ [newline])
   \<and> fst (process_bib_file (example_env doi_net) same_key_text [hd same_key_entries] start)
     = Inr (''@article{x,}@entry{k,}'' @ [newline])
   \<and> fst (process_bib_file (example_env doi_net) same_key_text [last same_key_entries] start)
     = Inr (''@article{w,}@entry{k,}'' @ [newline])
   \<and> same_key_text \<noteq> ''@article{w,}@entry{k,}'' @ [newline]
   \<and> same_key_text \<noteq> ''@article{x,}@entry{k,}'' @ [newline]"
  by (simp add: run_eval)

text \<open>
  Claim C6, as amended. Normalizing a title removes every non-word character and
  lower-cases the rest; the metadata search sends the title without backslashes and braces
  and stripped, which normalizes to the same text as the title as given. When the response
  decodes to the candidate list \<open>items\<close>: an empty list raises the no-candidates error; when
  a candidate's normalized first title equals the normalized query title, it carries an
  identifier, and every candidate before it has a first title that is not equal, the
  search returns that candidate's identifier; when every candidate has a first title and
  none is equal after normalizing, the no-exact-match error is raised. Whatever the
  candidates look like, an identifier is returned only when it is the identifier of the
  first candidate whose normalized title is equal, and when no candidate's normalized
  title is equal the search raises: a candidate that is not equal is never selected. A
  missing title counts as the empty title, as in the source.
\<close>

theorem search_doi_by_metadata_exact_match:
  assumes "http_get net (search_request (clean_title ttl) author) w = (Inr (Some resp), w1)"
    and "json_items resp = Some items"
  shows "(\<forall>s. normalize s = map lower_char (filter is_word s))
       \<and> (items = [] \<longrightarrow>
            search_doi_by_metadata net ttl author w
              = (Inl (ValueError (No_DOI_candidates (clean_title ttl))), w1))
       \<and> (\<forall>pre it post c d.
            items = pre @ it # post
            \<and> (\<forall>p \<in> set pre. \<exists>c'. cand_title p = Inr c' \<and> normalize c' \<noteq> normalize ttl)
            \<and> cand_title it = Inr c \<and> normalize c = normalize ttl \<and> DOI it = Some d
            \<longrightarrow> search_doi_by_metadata net ttl author w = (Inr d, w1))
       \<and> (\<forall>d. search_doi_by_metadata net ttl author w = (Inr d, w1) \<longrightarrow>
            (\<exists>pre it post c.
               items = pre @ it # post
               \<and> (\<forall>p \<in> set pre. \<exists>c'. cand_title p = Inr c' \<and> normalize c' \<noteq> normalize ttl)
               \<and> cand_title it = Inr c \<and> normalize c = normalize ttl \<and> DOI it = Some d))
       \<and> (items \<noteq> [] \<and> (\<forall>it \<in> set items. \<exists>c. cand_title it = Inr c \<and> normalize c \<noteq> normalize ttl)
            \<longrightarrow> search_doi_by_metadata net ttl author w
                  = (Inl (ValueError (No_exact_match (clean_title ttl))), w1))
       \<and> ((\<forall>it \<in> set items. \<forall>c. cand_title it = Inr c \<longrightarrow> normalize c \<noteq> normalize ttl)
            \<longrightarrow> (\<exists>e. search_doi_by_metadata net ttl author w = (Inl e, w1)))"
proof -
  let ?tc = "clean_title ttl" and ?tn = "normalize ttl"
  have s: "search_doi_by_metadata net ttl author w = (select_doi ?tc items, w1)"
    using assms by (simp add: search_doi_by_metadata_def)
  have sel: "items \<noteq> [] \<Longrightarrow> select_doi ?tc items = first_exact ?tc ?tn items"
    by (simp add: select_doi_def normalize_clean_title)
  have 1: "items = [] \<longrightarrow> search_doi_by_metadata net ttl author w
              = (Inl (ValueError (No_DOI_candidates ?tc)), w1)"
    by (simp add: s select_doi_def)
  have 2: "\<forall>pre it post c d.
            items = pre @ it # post
            \<and> (\<forall>p \<in> set pre. \<exists>c'. cand_title p = Inr c' \<and> normalize c' \<noteq> ?tn)
            \<and> cand_title it = Inr c \<and> normalize c = ?tn \<and> DOI it = Some d
            \<longrightarrow> search_doi_by_metadata net ttl author w = (Inr d, w1)"
  proof (intro allI impI, elim conjE)
    fix pre it post c d
    assume i: "items = pre @ it # post"
      and r: "\<forall>p \<in> set pre. \<exists>c'. cand_title p = Inr c' \<and> normalize c' \<noteq> ?tn"
        "cand_title it = Inr c" "normalize c = ?tn" "DOI it = Some d"
    from i have "items \<noteq> []" by simp
    from sel[OF this] first_exact_first[OF r, of ?tc post] i
    show "search_doi_by_metadata net ttl author w = (Inr d, w1)" by (simp add: s)
  qed
  have 3: "\<forall>d. search_doi_by_metadata net ttl author w = (Inr d, w1) \<longrightarrow>
            (\<exists>pre it post c.
               items = pre @ it # post
               \<and> (\<forall>p \<in> set pre. \<exists>c'. cand_title p = Inr c' \<and> normalize c' \<noteq> ?tn)
               \<and> cand_title it = Inr c \<and> normalize c = ?tn \<and> DOI it = Some d)"
  proof (intro allI impI)
    fix d
    assume "search_doi_by_metadata net ttl author w = (Inr d, w1)"
    then have sd: "select_doi ?tc items = Inr d" by (simp add: s)
    then have "items \<noteq> []" by (auto simp: select_doi_def)
    from sd sel[OF this] have "first_exact ?tc ?tn items = Inr d" by simp
    from first_exact_Inr[OF this]
    show "\<exists>pre it post c.
               items = pre @ it # post
               \<and> (\<forall>p \<in> set pre. \<exists>c'. cand_title p = Inr c' \<and> normalize c' \<noteq> ?tn)
               \<and> cand_title it = Inr c \<and> normalize c = ?tn \<and> DOI it = Some d" .
  qed
  have 4: "items \<noteq> [] \<and> (\<forall>it \<in> set items. \<exists>c. cand_title it = Inr c \<and> normalize c \<noteq> ?tn)
            \<longrightarrow> search_doi_by_metadata net ttl author w
                  = (Inl (ValueError (No_exact_match ?tc)), w1)"
    using sel first_exact_none[of items ?tn ?tc] by (simp add: s)
  have 5: "(\<forall>it \<in> set items. \<forall>c. cand_title it = Inr c \<longrightarrow> normalize c \<noteq> ?tn)
            \<longrightarrow> (\<exists>e. search_doi_by_metadata net ttl author w = (Inl e, w1))"
  proof (cases "items = []")
    case True
    with 1 show ?thesis by simp
  next
    case False
    from sel[OF False] first_exact_no_match_raises[of items ?tn ?tc] show ?thesis
      by (auto simp: s)
  qed
  have 0: "\<forall>s. normalize s = map lower_char (filter is_word s)"
    by (simp add: normalize_def py_lower_def)
  from 0 1 2 3 4 5 show ?thesis by (intro conjI)
qed

theorem search_doi_by_metadata_exact_match_witness:
  "search_doi_by_metadata (search_net [near_miss, case_hit, exact_hit]) ''{A} New Result'' ''Doe'' start
     = (Inr ''10.5/case'',
        \<lparr>clock = 1, log = [Get (search_request ''A New Result'' ''Doe'')], used_dois = {}\<rparr>)
   \<and> search_doi_by_metadata (search_net [exact_hit, later_hit]) ''{A} New Result'' ''Doe'' start
     = (Inr ''10.5/exact'',
        \<lparr>clock = 1, log = [Get (search_request ''A New Result'' ''Doe'')], used_dois = {}\<rparr>)
   \<and> search_doi_by_metadata (search_net [near_miss]) ''{A} New Result'' ''Doe'' start
     = (Inl (ValueError (No_exact_match ''A New Result'')),
        \<lparr>clock = 1, log = [Get (search_request ''A New Result'' ''Doe'')], used_dois = {}\<rparr>)
   \<and> search_doi_by_metadata (search_net []) ''{A} New Result'' ''Doe'' start
     = (Inl (ValueError (No_DOI_candidates ''A New Result'')),
        \<lparr>clock = 1, log = [Get (search_request ''A New Result'' ''Doe'')], used_dois = {}\<rparr>)
   \<and> normalize ''{A} New Result'' = ''anewresult''
   \<and> normalize ''a NEW result'' = ''anewresult''
   \<and> normalize ''A New Result!'' = ''anewresult''
   \<and> normalize ''A new results'' = ''anewresults''"
proof -
  let ?t = "''{A} New Result''"
  let ?w1 = "\<lparr>clock = 1, log = [Get (search_request ''A New Result'' ''Doe'')], used_dois = {}\<rparr>"
  have ct: "clean_title ?t = ''A New Result''" by (simp add: clean_title_def text_eval)
  have nt: "normalize ?t = ''anewresult''" by (simp add: normalize_def text_eval)
  have get: "http_get (search_net items) (search_request (clean_title ?t) ''Doe'') start
      = (Inr (Some (candidates items)), ?w1)" for items
    unfolding ct
    by (simp add: http_get_unroll requests_get_def emit_def is_error_status_def search_net_def
        served_def candidates_def start_def search_request_def CROSSREF_API_WORKS_def)
  have js: "json_items (candidates items) = Some items" for items
    by (simp add: candidates_def)
  have near: "cand_title near_miss = Inr ''A new results''"
    "normalize ''A new results'' = ''anewresults''"
    by (simp_all add: cand_title_def near_miss_def normalize_def text_eval)
  have cas: "cand_title case_hit = Inr ''a NEW result''"
    "normalize ''a NEW result'' = ''anewresult''" "DOI case_hit = Some ''10.5/case''"
    by (simp_all add: cand_title_def case_hit_def normalize_def text_eval)
  have exact: "cand_title exact_hit = Inr ''A New Result!''"
    "normalize ''A New Result!'' = ''anewresult''" "DOI exact_hit = Some ''10.5/exact''"
    by (simp_all add: cand_title_def exact_hit_def normalize_def text_eval)
  have "search_doi_by_metadata (search_net [near_miss, case_hit, exact_hit]) ?t ''Doe'' start
      = (Inr ''10.5/case'', ?w1)"
  proof -
    have "[near_miss, case_hit, exact_hit] = [near_miss] @ case_hit # [exact_hit]
        \<and> (\<forall>p \<in> set [near_miss]. \<exists>c'. cand_title p = Inr c' \<and> normalize c' \<noteq> normalize ?t)
        \<and> cand_title case_hit = Inr ''a NEW result'' \<and> normalize ''a NEW result'' = normalize ?t
        \<and> DOI case_hit = Some ''10.5/case''"
      using near cas nt by simp
    with search_doi_by_metadata_exact_match[OF get js, of "[near_miss, case_hit, exact_hit]"]
    show ?thesis by blast
  qed
  moreover have "search_doi_by_metadata (search_net [exact_hit, later_hit]) ?t ''Doe'' start
      = (Inr ''10.5/exact'', ?w1)"
  proof -
    have "[exact_hit, later_hit] = [] @ exact_hit # [later_hit]
        \<and> (\<forall>p \<in> set []. \<exists>c'. cand_title p = Inr c' \<and> normalize c' \<noteq> normalize ?t)
        \<and> cand_title exact_hit = Inr ''A New Result!'' \<and> normalize ''A New Result!'' = normalize ?t
        \<and> DOI exact_hit = Some ''10.5/exact''"
      using exact nt by simp
    with search_doi_by_metadata_exact_match[OF get js, of "[exact_hit, later_hit]"]
    show ?thesis by blast
  qed
  moreover have "search_doi_by_metadata (search_net [near_miss]) ?t ''Doe'' start
      = (Inl (ValueError (No_exact_match ''A New Result'')), ?w1)"
  proof -
    have "[near_miss] \<noteq> []
        \<and> (\<forall>it \<in> set [near_miss]. \<exists>c. cand_title it = Inr c \<and> normalize c \<noteq> normalize ?t)"
      using near nt by simp
    with search_doi_by_metadata_exact_match[OF get js, of "[near_miss]"]
    show ?thesis unfolding ct by blast
  qed
  moreover have "search_doi_by_metadata (search_net []) ?t ''Doe'' start
      = (Inl (ValueError (No_DOI_candidates ''A New Result'')), ?w1)"
    using search_doi_by_metadata_exact_match[OF get js, of "[]"] unfolding ct by blast
  ultimately show ?thesis using nt near(2) cas(2) exact(2) by blast
qed

text \<open>
  The claim as stated fails on a candidate list that holds an entry with an empty title
  list. Such an entry has no title to compare, so \<open>exact_hit\<close> is the first candidate whose
  normalized title equals the normalized query title, and the claim has its identifier
  returned; the search raises \<^verbatim>\<open>IndexError\<close> at the entry before it. Behind a near miss
  the same entry makes the search raise \<^verbatim>\<open>IndexError\<close> where the claim has the no-match
  error, and an equal candidate without the key \<^verbatim>\<open>'DOI'\<close> raises \<^verbatim>\<open>KeyError\<close>.
\<close>

theorem empty_title_list_counterexample:
  "search_doi_by_metadata (search_net [untitled, exact_hit]) ''{A} New Result'' ''Doe'' start
     = (Inl IndexError,
        \<lparr>clock = 1, log = [Get (search_request ''A New Result'' ''Doe'')], used_dois = {}\<rparr>)
   \<and> title untitled = Some []
   \<and> title exact_hit = Some [''A New Result!'']
   \<and> normalize ''A New Result!'' = normalize ''{A} New Result''
   \<and> DOI exact_hit = Some ''10.5/exact''
   \<and> search_doi_by_metadata (search_net [near_miss, untitled]) ''{A} New Result'' ''Doe'' start
     = (Inl IndexError,
        \<lparr>clock = 1, log = [Get (search_request ''A New Result'' ''Doe'')], used_dois = {}\<rparr>)
   \<and> search_doi_by_metadata (search_net [unidentified]) ''{A} New Result'' ''Doe'' start
     = (Inl (KeyError ''DOI''),
        \<lparr>clock = 1, log = [Get (search_request ''A New Result'' ''Doe'')], used_dois = {}\<rparr>)"
  by (simp add: run_eval)
text \<open>
  Claim C1. For every input text and every list of replacements whose spans are non-empty,
  lie inside the text and are pairwise non-overlapping (in whatever order the list holds
  them), applying the replacements sorted by start offset descending yields exactly the
  input in which every character outside the spans is kept in place and every span is
  replaced, once, by its replacement text. The list that \<^verbatim>\<open>process_bib_file\<close> collects is
  such a list, in ascending order: it holds one replacement per match of the boundary scan,
  with the span of the match, so the text a run writes is the reassembly of the input with
  the collected replacements.
\<close>

theorem apply_replacements_reassembles:
  "(spans_ok raw rs \<longrightarrow>
      apply_replacements raw rs = reassembled 0 raw (sort_key r_start rs)
      \<and> (ascending rs \<longrightarrow> apply_replacements raw rs = reassembled 0 raw rs))
   \<and> (process_bib_file env raw entries w = (Inr out, w') \<longrightarrow>
      (\<exists>rs' w1. process_matches env (structured_of entries) (finditer 0 raw) [] w = (Inr rs', w1)
         \<and> map (\<lambda>r. (r_start r, r_end r)) rs' = map (\<lambda>m. (m_start m, m_end m)) (finditer 0 raw)
         \<and> spans_ok raw rs' \<and> out = reassembled 0 raw rs'))"
proof -
  have sorted_eq: "apply_replacements raw xs = reassembled 0 raw (sort_key r_start xs)"
    if ok: "spans_ok raw xs" for xs
  proof -
    have "\<forall>r \<in> set (sort_key r_start xs). r_start r \<le> r_end r \<and> r_end r \<le> length raw"
      using ok by (auto simp: spans_ok_def)
    then show ?thesis
      unfolding apply_replacements_def sorted_desc_rev_sort[OF ok]
      using foldl_splice_rev[OF spans_ok_sort_ascending[OF ok]] by blast
  qed
  have asc_eq: "apply_replacements raw xs = reassembled 0 raw xs"
    if ok: "spans_ok raw xs" and asc: "ascending xs" for xs
  proof -
    have "sorted_wrt (\<lambda>a b. r_start a \<le> r_start b) xs"
      using asc ok unfolding ascending_def spans_ok_def
      by (elim conjE sorted_wrt_mono_rel[rotated]) force
    then have "sorted (map r_start xs)" by (simp add: sorted_map)
    then show ?thesis using sorted_eq[OF ok] by (simp add: sort_key_id_if_sorted)
  qed
  have run: "\<exists>rs' w1. process_matches env (structured_of entries) (finditer 0 raw) [] w = (Inr rs', w1)
         \<and> map (\<lambda>r. (r_start r, r_end r)) rs' = map (\<lambda>m. (m_start m, m_end m)) (finditer 0 raw)
         \<and> spans_ok raw rs' \<and> out = reassembled 0 raw rs'"
    if p: "process_bib_file env raw entries w = (Inr out, w')"
  proof -
    from process_bib_file_output[OF p] obtain rs' w1 where
      r: "process_matches env (structured_of entries) (finditer 0 raw) [] w = (Inr rs', w1)"
        "map (\<lambda>r. (r_start r, r_end r)) rs' = map (\<lambda>m. (m_start m, m_end m)) (finditer 0 raw)"
        "spans_ok raw rs'" "ascending rs'" "out = apply_replacements raw rs'"
      by blast
    from asc_eq[OF r(3) r(4)] r show ?thesis by auto
  qed
  from sorted_eq asc_eq run show ?thesis by blast
qed

theorem apply_replacements_reassembles_witness:
  "spans_ok ''%c\<newline>@a{k,x}\<newline>@b{j,y}'' [\<lparr>r_start = 11, r_end = 18, r_text = ''B''\<rparr>,
                                   \<lparr>r_start = 3, r_end = 11, r_text = ''AA\<newline>''\<rparr>]
   \<and> apply_replacements ''%c\<newline>@a{k,x}\<newline>@b{j,y}''
        [\<lparr>r_start = 11, r_end = 18, r_text = ''B''\<rparr>, \<lparr>r_start = 3, r_end = 11, r_text = ''AA\<newline>''\<rparr>]
      = ''%c\<newline>AA\<newline>B''
   \<and> ascending [\<lparr>r_start = 3, r_end = 11, r_text = ''AA\<newline>''\<rparr>, \<lparr>r_start = 11, r_end = 18, r_text = ''B''\<rparr>]
   \<and> apply_replacements ''%c\<newline>@a{k,x}\<newline>@b{j,y}''
        [\<lparr>r_start = 3, r_end = 11, r_text = ''AA\<newline>''\<rparr>, \<lparr>r_start = 11, r_end = 18, r_text = ''B''\<rparr>]
      = ''%c\<newline>AA\<newline>B''
   \<and> fst (process_bib_file (example_env up_net) twin_text twin_entries start)
      = Inr (''@article{z,}@entry{b,}'' @ [newline])
   \<and> (\<exists>rs'. map (\<lambda>r. (r_start r, r_end r)) rs' = [(0, 23), (23, 46)]
          \<and> ''@article{z,}@entry{b,}'' @ [newline] = reassembled 0 twin_text rs')"
proof -
  let ?raw = "''%c\<newline>@a{k,x}\<newline>@b{j,y}''"
  let ?a = "\<lparr>r_start = 3, r_end = 11, r_text = ''AA\<newline>''\<rparr>"
  let ?b = "\<lparr>r_start = 11, r_end = 18, r_text = ''B''\<rparr>"
  have ok1: "spans_ok ?raw [?b, ?a]" by (simp add: spans_ok_def apart_def)
  have ok2: "spans_ok ?raw [?a, ?b]" by (simp add: spans_ok_def apart_def)
  have asc: "ascending [?a, ?b]" by (simp add: ascending_def)
  have 1: "apply_replacements ?raw [?b, ?a] = ''%c\<newline>AA\<newline>B''"
    using apply_replacements_reassembles[of ?raw "[?b, ?a]"] ok1 by simp
  have 2: "apply_replacements ?raw [?a, ?b] = ''%c\<newline>AA\<newline>B''"
    using apply_replacements_reassembles[of ?raw "[?a, ?b]"] ok2 asc by simp
  obtain w' where run: "process_bib_file (example_env up_net) twin_text twin_entries start
      = (Inr (''@article{z,}@entry{b,}'' @ [newline]), w')"
    by (simp add: run_eval)
  have sp: "map (\<lambda>m. (m_start m, m_end m)) (finditer 0 twin_text) = [(0, 23), (23, 46)]"
    by (simp add: twin_text_def text_eval regex_eval)
  have "\<exists>rs' w1. process_matches (example_env up_net) (structured_of twin_entries)
             (finditer 0 twin_text) [] start = (Inr rs', w1)
         \<and> map (\<lambda>r. (r_start r, r_end r)) rs'
             = map (\<lambda>m. (m_start m, m_end m)) (finditer 0 twin_text)
         \<and> spans_ok twin_text rs'
         \<and> ''@article{z,}@entry{b,}'' @ [newline] = reassembled 0 twin_text rs'"
    by (rule apply_replacements_reassembles[of twin_text "[]" "example_env up_net" twin_entries
          start "''@article{z,}@entry{b,}'' @ [newline]" w', THEN conjunct2, THEN mp, OF run])
  then obtain rs' where
    "map (\<lambda>r. (r_start r, r_end r)) rs' = map (\<lambda>m. (m_start m, m_end m)) (finditer 0 twin_text)"
    "''@article{z,}@entry{b,}'' @ [newline] = reassembled 0 twin_text rs'"
    by (elim exE conjE)
  then have 3: "\<exists>rs'. map (\<lambda>r. (r_start r, r_end r)) rs' = [(0, 23), (23, 46)]
          \<and> ''@article{z,}@entry{b,}'' @ [newline] = reassembled 0 twin_text rs'"
    unfolding sp by (intro exI[of _ rs'] conjI)
  from ok1 asc 1 2 3 run show ?thesis by simp
qed


end
